theory Spec2Isabelle
  imports Main "HOL-Library.Word"
begin

unbundle bit_operations_syntax

section \<open>The debug heap of DebugHeap.c as HOL functions\<close>

text \<open>
  The model follows the POSIX branch of DebugHeap.c on an LP64 target: \<open>size_t\<close> and
  \<open>uintptr_t\<close> have 64 bits, \<open>int\<close> and \<open>uint32_t\<close> have 32 bits. Integers are natural
  numbers, and every place where the C arithmetic reduces a value (a conversion to
  \<open>uint32_t\<close>, a store into a 31-bit bit-field, unsigned wrap-around) is written out with
  \<open>u32\<close>, \<open>u31\<close> and \<open>u64\<close>. Addresses are natural numbers, and the null pointer of type
  \<open>void*\<close> is the address 0.

  A \<open>DebugBlockInfo*\<close> is either NULL (\<open>None\<close>) or the index of a record of the array
  \<open>m_Blocks\<close>; the array is a store from indices to records. The three page-indexed
  pointer arrays are stores from indices to pointers; an index outside \<open>[0, PageCount)\<close>
  is undefined behaviour in C and the error \<open>OutOfBounds\<close> here. Memory that comes fresh
  from \<open>mmap\<close> reads as zero.
\<close>

subsection \<open>Integer conversions\<close>

definition kPageSize :: nat where
  "kPageSize = 4096"

definition u31 :: "nat \<Rightarrow> nat" where
  "u31 x = x mod 2 ^ 31"

definition u32 :: "nat \<Rightarrow> nat" where
  "u32 x = x mod 2 ^ 32"

definition u64 :: "nat \<Rightarrow> nat" where
  "u64 x = x mod 2 ^ 64"

text \<open>Sizes of the structures on LP64 (two 32-bit bit-field units and two pointers make a
  \<open>DebugBlockInfo\<close>; \<open>DebugHeap\<close> has eleven members, padded to 80 bytes).\<close>

definition sizeof_DebugHeap :: nat where
  "sizeof_DebugHeap = 80"

definition sizeof_DebugBlockInfo :: nat where
  "sizeof_DebugBlockInfo = 24"

definition sizeof_ptr :: nat where
  "sizeof_ptr = 8"

subsection \<open>Errors\<close>

text \<open>Each \<open>ASSERT_FATAL\<close> of the source is one constructor of \<open>assertion\<close>, named after its
  message and place.\<close>

datatype assertion =
    CouldntAllocateAddressSpace
  | FailedToFreeMemory
  | FailedToCommitMemory
  | MadviseFailed
  | UnsynchronizedMTUsage
  | AllocBlockInfoCorrupted
  | FreeListBlockInfoCorrupted
  | BlockLookupCorrupted
  | InvalidPointerFreed
  | DoubleFree
  | BlockStateCorrupted
  | InvalidPointer

datatype error =
    AssertFailed assertion
  | NullDeref
  | OutOfBounds
  | SignedOverflow
  | SegFault

subsection \<open>Data\<close>

record DebugBlockInfo =
  m_Allocated :: bool
  m_PageCount :: nat
  m_PendingFree :: bool
  m_PageIndex :: nat
  m_Prev :: "nat option"
  m_Next :: "nat option"

definition zero_block :: DebugBlockInfo where
  "zero_block = \<lparr>m_Allocated = False, m_PageCount = 0, m_PendingFree = False,
     m_PageIndex = 0, m_Prev = None, m_Next = None\<rparr>"

text \<open>The first eleven fields are the members of \<open>struct DebugHeap\<close> (its \<open>m_PageCount\<close> is
  \<open>m_HeapPageCount\<close> here, the name being taken by the block record). The last three are not
  in the struct: \<open>self\<close> is the address of the struct, the value of the \<open>DebugHeap*\<close> handle;
  \<open>vm_mapped\<close> are the intervals \<open>[lo, hi)\<close> of address space that \<open>mmap\<close> has handed out
  and \<open>munmap\<close> has not taken back; \<open>vm_access\<close> tells which addresses are readable and
  writable.\<close>

record DebugHeap =
  m_MaxAllocs :: nat
  m_HeapPageCount :: nat
  m_BaseAddress :: nat
  m_FreeListSize :: nat
  m_FreeList :: "nat \<Rightarrow> nat option"
  m_PendingListSize :: nat
  m_PendingList :: "nat \<Rightarrow> nat option"
  m_BlockLookup :: "nat \<Rightarrow> nat option"
  m_FirstUnusedBlockInfo :: "nat option"
  m_Blocks :: "nat \<Rightarrow> DebugBlockInfo"
  m_ReentrancyGuard :: nat
  self :: nat
  vm_mapped :: "(nat \<times> nat) list"
  vm_access :: "nat \<Rightarrow> bool"

definition upd_block :: "DebugHeap \<Rightarrow> nat \<Rightarrow> (DebugBlockInfo \<Rightarrow> DebugBlockInfo) \<Rightarrow> DebugHeap" where
  "upd_block heap b f = heap\<lparr>m_Blocks := (m_Blocks heap)(b := f (m_Blocks heap b))\<rparr>"

subsection \<open>Virtual memory\<close>

text \<open>\<open>mmap\<close> answers with an address chosen by the kernel; the model takes that answer as
  the argument \<open>os_result\<close>. \<open>mprotect\<close> and \<open>madvise\<close> fail on an address that is not
  page-aligned and on a non-empty rng that is not mapped; \<open>munmap\<close> fails on an address
  that is not page-aligned and on length 0.\<close>

definition in_mapped :: "(nat \<times> nat) list \<Rightarrow> nat \<Rightarrow> nat \<Rightarrow> bool" where
  "in_mapped mapped ptr sz = list_ex (\<lambda>(lo, hi). lo \<le> ptr \<and> ptr + sz \<le> hi) mapped"

definition unmap :: "nat \<Rightarrow> nat \<Rightarrow> (nat \<times> nat) list \<Rightarrow> (nat \<times> nat) list" where
  "unmap ptr sz mapped =
     concat (map (\<lambda>(lo, hi). filter (\<lambda>(l, h). l < h)
                    [(lo, min hi ptr), (max lo (ptr + sz), hi)]) mapped)"

definition VmAllocate :: "nat \<Rightarrow> nat \<Rightarrow> error + (nat \<times> nat) list" where
  "VmAllocate os_result sz =
     (if os_result = 0 then Inl (AssertFailed CouldntAllocateAddressSpace)
      else Inr [(os_result, os_result + sz)])"

definition VmFree :: "(nat \<times> nat) list \<Rightarrow> nat \<Rightarrow> nat \<Rightarrow> error + (nat \<times> nat) list" where
  "VmFree mapped ptr sz =
     (if ptr mod kPageSize = 0 \<and> 0 < sz then Inr (unmap ptr sz mapped)
      else Inl (AssertFailed FailedToFreeMemory))"

definition VmCommit :: "DebugHeap \<Rightarrow> nat \<Rightarrow> nat \<Rightarrow> error + DebugHeap" where
  "VmCommit heap ptr sz =
     (if ptr mod kPageSize = 0 \<and> (sz = 0 \<or> in_mapped (vm_mapped heap) ptr sz)
      then Inr (heap\<lparr>vm_access := (\<lambda>a. (ptr \<le> a \<and> a < ptr + sz) \<or> vm_access heap a)\<rparr>)
      else Inl (AssertFailed FailedToCommitMemory))"

definition VmDecommit :: "DebugHeap \<Rightarrow> nat \<Rightarrow> nat \<Rightarrow> error + DebugHeap" where
  "VmDecommit heap ptr sz =
     (if ptr mod kPageSize = 0 \<and> (sz = 0 \<or> in_mapped (vm_mapped heap) ptr sz)
      then Inr (heap\<lparr>vm_access := (\<lambda>a. \<not> (ptr \<le> a \<and> a < ptr + sz) \<and> vm_access heap a)\<rparr>)
      else Inl (AssertFailed MadviseFailed))"

subsection \<open>The reentrancy guard\<close>

definition DEBUG_THREAD_GUARD_ENTER :: "DebugHeap \<Rightarrow> error + DebugHeap" where
  "DEBUG_THREAD_GUARD_ENTER heap =
     (let g = u32 (m_ReentrancyGuard heap + 1)
      in if g = 1 then Inr (heap\<lparr>m_ReentrancyGuard := g\<rparr>)
         else Inl (AssertFailed UnsynchronizedMTUsage))"

definition DEBUG_THREAD_GUARD_LEAVE :: "DebugHeap \<Rightarrow> error + DebugHeap" where
  "DEBUG_THREAD_GUARD_LEAVE heap =
     (let g = u32 (m_ReentrancyGuard heap + 2 ^ 32 - 1)
      in if g = 0 then Inr (heap\<lparr>m_ReentrancyGuard := g\<rparr>)
         else Inl (AssertFailed UnsynchronizedMTUsage))"

subsection \<open>The pool of block records\<close>

definition AllocBlockInfo :: "DebugHeap \<Rightarrow> error + (DebugHeap \<times> nat)" where
  "AllocBlockInfo heap =
     (case m_FirstUnusedBlockInfo heap of
        None \<Rightarrow> Inl NullDeref
      | Some result \<Rightarrow>
          if \<not> m_Allocated (m_Blocks heap result) then Inl (AssertFailed AllocBlockInfoCorrupted)
          else if \<not> m_PendingFree (m_Blocks heap result) then Inl (AssertFailed AllocBlockInfoCorrupted)
          else Inr (heap\<lparr>m_FirstUnusedBlockInfo := m_Next (m_Blocks heap result),
                         m_Blocks := (m_Blocks heap)(result := zero_block)\<rparr>, result))"

definition FreeBlockInfo :: "DebugHeap \<Rightarrow> nat \<Rightarrow> DebugHeap" where
  "FreeBlockInfo heap block_info =
     (upd_block heap block_info
        (\<lambda>r. r\<lparr>m_Allocated := True, m_PendingFree := True, m_Prev := None,
               m_Next := m_FirstUnusedBlockInfo heap\<rparr>))
     \<lparr>m_FirstUnusedBlockInfo := Some block_info\<rparr>"

subsection \<open>DebugHeapInit and DebugHeapDestroy\<close>

function init_blocks :: "nat \<Rightarrow> nat \<Rightarrow> (nat \<Rightarrow> DebugBlockInfo) \<Rightarrow> (nat \<Rightarrow> DebugBlockInfo)" where
  "init_blocks i count blocks =
     (if i < count
      then init_blocks (i + 1) count
             (blocks(i := (blocks i)\<lparr>m_Allocated := True, m_PendingFree := True, m_Prev := None,
                                     m_Next := (if i + 1 < count then Some (i + 1) else None)\<rparr>))
      else blocks)"
  by pat_completeness auto
termination
  by (relation "measure (\<lambda>(i, count, blocks). count - i)") auto

declare init_blocks.simps [simp del]

definition bookkeeping_pages :: "nat \<Rightarrow> nat" where
  "bookkeeping_pages mem_page_count =
     u64 (u64 (sizeof_DebugHeap + 3 * mem_page_count * sizeof_ptr
               + sizeof_DebugBlockInfo * mem_page_count) + kPageSize - 1) div kPageSize"

definition total_bytes :: "nat \<Rightarrow> nat" where
  "total_bytes mem_size_bytes =
     (let mem_page_count = u64 mem_size_bytes div kPageSize
      in u64 (u64 (bookkeeping_pages mem_page_count + mem_page_count) * kPageSize))"

text \<open>The part of \<open>DebugHeapInit\<close> after the bookkeeping pages are committed: the
  assignments to the members, the loop that links the pool, and the root block.\<close>

definition init_heap :: "DebugHeap \<Rightarrow> nat \<Rightarrow> nat \<Rightarrow> error + DebugHeap option" where
  "init_heap committed rng mem_page_count =
     (let self1 = committed
            \<lparr>m_MaxAllocs := u32 (mem_page_count div 2),
             m_BaseAddress := u64 (rng + kPageSize * bookkeeping_pages mem_page_count),
             m_HeapPageCount := u32 mem_page_count,
             m_FreeListSize := 1,
             m_PendingListSize := 0,
             m_ReentrancyGuard := 0\<rparr>;
          self2 = self1\<lparr>m_Blocks := init_blocks 0 (m_MaxAllocs self1) (m_Blocks self1)\<rparr>;
          self3 = self2\<lparr>m_FirstUnusedBlockInfo := Some 0\<rparr>
      in (case AllocBlockInfo self3 of
            Inl e \<Rightarrow> Inl e
          | Inr (self4, root_block) \<Rightarrow>
              (let self5 = upd_block self4 root_block
                     (\<lambda>r. r\<lparr>m_PageIndex := 0, m_Allocated := False, m_PendingFree := False,
                            m_PageCount := u31 (u32 mem_page_count),
                            m_Prev := None, m_Next := None\<rparr>)
               in (if \<not> 0 < m_HeapPageCount self5 then Inl OutOfBounds
                   else Inr (Some (self5\<lparr>m_FreeList := fun_upd (m_FreeList self5) 0 (Some root_block)\<rparr>))))))"

definition fresh_heap :: "nat \<Rightarrow> (nat \<times> nat) list \<Rightarrow> DebugHeap" where
  "fresh_heap rng mapped =
     \<lparr>m_MaxAllocs = 0, m_HeapPageCount = 0, m_BaseAddress = 0,
      m_FreeListSize = 0, m_FreeList = (\<lambda>i. None),
      m_PendingListSize = 0, m_PendingList = (\<lambda>i. None),
      m_BlockLookup = (\<lambda>i. None), m_FirstUnusedBlockInfo = None,
      m_Blocks = (\<lambda>i. zero_block), m_ReentrancyGuard = 0,
      self = rng, vm_mapped = mapped, vm_access = (\<lambda>a. False)\<rparr>"

definition DebugHeapInit :: "nat \<Rightarrow> nat \<Rightarrow> error + DebugHeap option" where
  "DebugHeapInit os_result mem_size_bytes =
     (let mem_page_count = u64 mem_size_bytes div kPageSize
      in (case VmAllocate os_result (total_bytes mem_size_bytes) of
            Inl e \<Rightarrow> Inl e
          | Inr mapped \<Rightarrow>
              (let rng = os_result
               in (if rng = 0 then Inr None
                   else (case VmCommit (fresh_heap rng mapped) rng
                                 (u64 (bookkeeping_pages mem_page_count * kPageSize)) of
                           Inl e \<Rightarrow> Inl e
                         | Inr committed \<Rightarrow> init_heap committed rng mem_page_count)))))"

text \<open>The size that \<open>DebugHeapDestroy\<close> hands to \<open>VmFree\<close>: the product of a \<open>uint32_t\<close> and
  the \<open>int\<close> constant \<open>kPageSize\<close>, computed in 32 bits.\<close>

definition destroy_size :: "DebugHeap \<Rightarrow> nat" where
  "destroy_size heap = u32 (m_HeapPageCount heap * kPageSize)"

definition DebugHeapDestroy :: "DebugHeap \<Rightarrow> error + (nat \<times> nat) list" where
  "DebugHeapDestroy heap = VmFree (vm_mapped heap) (self heap) (destroy_size heap)"

subsection \<open>AllocFromFreeList\<close>

text \<open>The best-fit scan. The accumulator is \<open>(best_block, best_block_size,
  best_freelist_index)\<close>; it starts as \<open>(NULL, ~0u, 0)\<close>.\<close>

function scan_free_list ::
  "DebugHeap \<Rightarrow> nat \<Rightarrow> nat \<Rightarrow> nat \<Rightarrow> nat option \<times> nat \<times> nat \<Rightarrow> error + (nat option \<times> nat \<times> nat)" where
  "scan_free_list heap page_req i count best =
     (if i < count then
        (if \<not> i < m_HeapPageCount heap then Inl OutOfBounds
         else (case m_FreeList heap i of
                 None \<Rightarrow> Inl NullDeref
               | Some block \<Rightarrow>
                   (let block_count = m_PageCount (m_Blocks heap block)
                    in (if m_Allocated (m_Blocks heap block)
                        then Inl (AssertFailed FreeListBlockInfoCorrupted)
                        else if m_PendingFree (m_Blocks heap block)
                        then Inl (AssertFailed FreeListBlockInfoCorrupted)
                        else scan_free_list heap page_req (i + 1) count
                               (if page_req \<le> block_count \<and> block_count < fst (snd best)
                                then (Some block, block_count, i) else best)))))
      else Inr best)"
  by pat_completeness auto
termination
  by (relation "measure (\<lambda>(heap, page_req, i, count, best). count - i)") auto

declare scan_free_list.simps [simp del]

definition take_off_free_list :: "DebugHeap \<Rightarrow> nat \<Rightarrow> DebugHeap" where
  "take_off_free_list heap best_freelist_index =
     (let heap1 = (if 1 < m_FreeListSize heap
                   then heap\<lparr>m_FreeList := fun_upd (m_FreeList heap) best_freelist_index
                                               (m_FreeList heap (m_FreeListSize heap - 1))\<rparr>
                   else heap)
      in heap1\<lparr>m_FreeListSize := u32 (m_FreeListSize heap1 + 2 ^ 32 - 1)\<rparr>)"

definition carve_tail :: "DebugHeap \<Rightarrow> nat \<Rightarrow> nat \<Rightarrow> nat \<Rightarrow> error + DebugHeap" where
  "carve_tail heap best_block unused_page_count page_req =
     (case AllocBlockInfo heap of
        Inl e \<Rightarrow> Inl e
      | Inr (heap1, tail_block) \<Rightarrow>
          (let heap2 = upd_block heap1 tail_block (\<lambda>r. r\<lparr>m_Allocated := False\<rparr>);
               heap3 = upd_block heap2 tail_block (\<lambda>r. r\<lparr>m_PendingFree := False\<rparr>);
               heap4 = upd_block heap3 tail_block
                         (\<lambda>r. r\<lparr>m_PageIndex :=
                                  u31 (u32 (m_PageIndex (m_Blocks heap3 best_block)
                                            + m_PageCount (m_Blocks heap3 best_block)
                                            + 2 ^ 32 - unused_page_count))\<rparr>);
               heap5 = upd_block heap4 tail_block (\<lambda>r. r\<lparr>m_PageCount := u31 unused_page_count\<rparr>);
               heap6 = upd_block heap5 tail_block (\<lambda>r. r\<lparr>m_Next := m_Next (m_Blocks heap5 best_block)\<rparr>);
               heap7 = upd_block heap6 tail_block (\<lambda>r. r\<lparr>m_Prev := Some best_block\<rparr>);
               heap8 = upd_block heap7 best_block (\<lambda>r. r\<lparr>m_Next := Some tail_block\<rparr>)
           in (if \<not> m_FreeListSize heap8 < m_HeapPageCount heap8 then Inl OutOfBounds
               else (let heap9 = heap8\<lparr>m_FreeList := fun_upd (m_FreeList heap8) (m_FreeListSize heap8)
                                                        (Some tail_block),
                                        m_FreeListSize := u32 (m_FreeListSize heap8 + 1)\<rparr>
                     in Inr (upd_block heap9 best_block (\<lambda>r. r\<lparr>m_PageCount := u31 (u32 page_req)\<rparr>))))))"

text \<open>The loop \<open>for (i = 1; i < max; ++i) ASSERT_FATAL(m_BlockLookup[page_index + i] == NULL)\<close>
  of \<open>AllocFromFreeList\<close> and of \<open>DebugHeapFree\<close>.\<close>

function lookup_clear :: "DebugHeap \<Rightarrow> nat \<Rightarrow> nat \<Rightarrow> nat \<Rightarrow> error + unit" where
  "lookup_clear heap page_index i max_i =
     (if i < max_i then
        (if \<not> u32 (page_index + i) < m_HeapPageCount heap then Inl OutOfBounds
         else (case m_BlockLookup heap (u32 (page_index + i)) of
                 Some b \<Rightarrow> Inl (AssertFailed BlockLookupCorrupted)
               | None \<Rightarrow> lookup_clear heap page_index (i + 1) max_i))
      else Inr ())"
  by pat_completeness auto
termination
  by (relation "measure (\<lambda>(heap, page_index, i, max_i). max_i - i)") auto

declare lookup_clear.simps [simp del]

definition mark_allocated :: "DebugHeap \<Rightarrow> nat \<Rightarrow> error + (DebugHeap \<times> nat)" where
  "mark_allocated heap best_block =
     (let heap1 = upd_block heap best_block (\<lambda>r. r\<lparr>m_Allocated := True\<rparr>);
          page_index = m_PageIndex (m_Blocks heap1 best_block)
      in (if \<not> page_index < m_HeapPageCount heap1 then Inl OutOfBounds
          else (case m_BlockLookup heap1 page_index of
                  Some b \<Rightarrow> Inl (AssertFailed BlockLookupCorrupted)
                | None \<Rightarrow>
                    (let heap2 = heap1\<lparr>m_BlockLookup := fun_upd (m_BlockLookup heap1) page_index
                                                              (Some best_block)\<rparr>
                     in (case lookup_clear heap2 page_index 1 (m_PageCount (m_Blocks heap2 best_block)) of
                           Inl e \<Rightarrow> Inl e
                         | Inr u \<Rightarrow> Inr (heap2, u64 (m_BaseAddress heap2 + page_index * kPageSize)))))))"

definition AllocFromFreeList :: "DebugHeap \<Rightarrow> nat \<Rightarrow> error + (DebugHeap \<times> nat)" where
  "AllocFromFreeList heap page_req =
     (case scan_free_list heap page_req 0 (m_FreeListSize heap) (None, 2 ^ 32 - 1, 0) of
        Inl e \<Rightarrow> Inl e
      | Inr (None, best_block_size, best_freelist_index) \<Rightarrow> Inr (heap, 0)
      | Inr (Some best_block, best_block_size, best_freelist_index) \<Rightarrow>
          (let heap1 = take_off_free_list heap best_freelist_index;
               unused_page_count = u32 (u64 (best_block_size + 2 ^ 64 - page_req))
           in (case (if 0 < unused_page_count
                     then carve_tail heap1 best_block unused_page_count page_req
                     else Inr heap1) of
                 Inl e \<Rightarrow> Inl e
               | Inr heap2 \<Rightarrow> mark_allocated heap2 best_block)))"

subsection \<open>FinalizeAlloc\<close>

text \<open>\<open>x & ~((uint32_t) m)\<close> on 32-bit values.\<close>

definition and_not32 :: "nat \<Rightarrow> nat \<Rightarrow> nat" where
  "and_not32 x m = unat ((of_nat x :: 32 word) AND NOT (of_nat m))"

definition ideal_offset :: "nat \<Rightarrow> nat" where
  "ideal_offset user_size = u32 (u64 (kPageSize + 2 ^ 64 - u64 user_size)) mod kPageSize"

definition aligned_offset :: "nat \<Rightarrow> nat \<Rightarrow> nat" where
  "aligned_offset user_size user_alignment =
     and_not32 (ideal_offset user_size) (u64 (u64 user_alignment + 2 ^ 64 - 1))"

text \<open>The \<open>memset\<close> that fills the bytes before the user pointer faults when it has bytes to
  write and the page is not accessible.\<close>

definition FinalizeAlloc :: "DebugHeap \<Rightarrow> nat \<Rightarrow> nat \<Rightarrow> nat \<Rightarrow> nat \<Rightarrow> error + (DebugHeap \<times> nat)" where
  "FinalizeAlloc heap ptr user_size pages_allocated user_alignment =
     (let user_bytes = u64 (u64 (pages_allocated + 2 ^ 64 - 1) * kPageSize)
      in (case VmCommit heap ptr user_bytes of
            Inl e \<Rightarrow> Inl e
          | Inr heap1 \<Rightarrow>
              (case VmDecommit heap1 (u64 (ptr + user_bytes)) kPageSize of
                 Inl e \<Rightarrow> Inl e
               | Inr heap2 \<Rightarrow>
                   (if 0 < aligned_offset user_size user_alignment \<and> \<not> vm_access heap2 ptr
                    then Inl SegFault
                    else Inr (heap2, u64 (ptr + aligned_offset user_size user_alignment))))))"

subsection \<open>FlushPendingFrees\<close>

definition merge_left :: "DebugHeap \<Rightarrow> nat \<Rightarrow> DebugHeap \<times> nat \<times> bool" where
  "merge_left heap block =
     (case m_Prev (m_Blocks heap block) of
        None \<Rightarrow> (heap, block, False)
      | Some prev \<Rightarrow>
          (if \<not> m_Allocated (m_Blocks heap prev) \<and> \<not> m_PendingFree (m_Blocks heap prev)
              \<and> m_PageIndex (m_Blocks heap prev) + m_PageCount (m_Blocks heap prev)
                  = m_PageIndex (m_Blocks heap block)
           then (let heap1 = upd_block heap prev (\<lambda>r. r\<lparr>m_Next := m_Next (m_Blocks heap block)\<rparr>);
                     heap2 = (case m_Next (m_Blocks heap1 block) of
                                None \<Rightarrow> heap1
                              | Some n \<Rightarrow> upd_block heap1 n (\<lambda>r. r\<lparr>m_Prev := Some prev\<rparr>));
                     heap3 = upd_block heap2 prev
                               (\<lambda>r. r\<lparr>m_PageCount := u31 (m_PageCount r + m_PageCount (m_Blocks heap2 block))\<rparr>);
                     heap4 = FreeBlockInfo heap3 block
                 in (heap4, prev, True))
           else (heap, block, False)))"

function remove_from_free_list :: "DebugHeap \<Rightarrow> nat \<Rightarrow> nat \<Rightarrow> nat \<Rightarrow> error + DebugHeap" where
  "remove_from_free_list heap next_block fi fcount =
     (if fi < fcount then
        (if \<not> fi < m_HeapPageCount heap then Inl OutOfBounds
         else if m_FreeList heap fi = Some next_block
         then (if \<not> u32 (m_FreeListSize heap + 2 ^ 32 - 1) < m_HeapPageCount heap then Inl OutOfBounds
               else Inr (heap\<lparr>m_FreeList := fun_upd (m_FreeList heap) fi
                                              (m_FreeList heap (u32 (m_FreeListSize heap + 2 ^ 32 - 1))),
                              m_FreeListSize := u32 (m_FreeListSize heap + 2 ^ 32 - 1)\<rparr>))
         else remove_from_free_list heap next_block (fi + 1) fcount)
      else Inr heap)"
  by pat_completeness auto
termination
  by (relation "measure (\<lambda>(heap, next_block, fi, fcount). fcount - fi)") auto

declare remove_from_free_list.simps [simp del]

definition merge_right :: "DebugHeap \<Rightarrow> nat \<Rightarrow> error + DebugHeap" where
  "merge_right heap block =
     (case m_Next (m_Blocks heap block) of
        None \<Rightarrow> Inr heap
      | Some next_block \<Rightarrow>
          (if \<not> m_Allocated (m_Blocks heap next_block) \<and> \<not> m_PendingFree (m_Blocks heap next_block)
              \<and> m_PageIndex (m_Blocks heap next_block)
                  = m_PageIndex (m_Blocks heap block) + m_PageCount (m_Blocks heap block)
           then (let heap1 = upd_block heap block (\<lambda>r. r\<lparr>m_Next := m_Next (m_Blocks heap next_block)\<rparr>);
                     heap2 = (case m_Next (m_Blocks heap1 block) of
                                None \<Rightarrow> heap1
                              | Some n \<Rightarrow> upd_block heap1 n (\<lambda>r. r\<lparr>m_Prev := Some block\<rparr>));
                     heap3 = upd_block heap2 block
                               (\<lambda>r. r\<lparr>m_PageCount := u31 (m_PageCount r + m_PageCount (m_Blocks heap2 next_block))\<rparr>)
                 in (case remove_from_free_list heap3 next_block 0 (m_FreeListSize heap3) of
                       Inl e \<Rightarrow> Inl e
                     | Inr heap4 \<Rightarrow> Inr (FreeBlockInfo heap4 next_block)))
           else Inr heap))"

text \<open>One iteration of the loop of \<open>FlushPendingFrees\<close>, for index \<open>i\<close> of the pending list.\<close>

definition flush_entry :: "DebugHeap \<Rightarrow> nat \<Rightarrow> error + DebugHeap" where
  "flush_entry heap i =
     (if \<not> i < m_HeapPageCount heap then Inl OutOfBounds
      else (case m_PendingList heap i of
              None \<Rightarrow> Inl NullDeref
            | Some block0 \<Rightarrow>
                (case merge_left heap block0 of
                   (heap1, block, block_removed) \<Rightarrow>
                     (case merge_right heap1 block of
                        Inl e \<Rightarrow> Inl e
                      | Inr heap2 \<Rightarrow>
                          (if block_removed then Inr heap2
                           else (let heap3 = upd_block heap2 block (\<lambda>r. r\<lparr>m_PendingFree := False\<rparr>)
                                 in (if \<not> m_FreeListSize heap3 < m_HeapPageCount heap3 then Inl OutOfBounds
                                     else Inr (heap3\<lparr>m_FreeList := fun_upd (m_FreeList heap3)
                                                                       (m_FreeListSize heap3) (Some block),
                                                     m_FreeListSize := u32 (m_FreeListSize heap3 + 1)\<rparr>))))))))"

function flush_loop :: "DebugHeap \<Rightarrow> nat \<Rightarrow> nat \<Rightarrow> error + DebugHeap" where
  "flush_loop heap i count =
     (if i < count then
        (case flush_entry heap i of
           Inl e \<Rightarrow> Inl e
         | Inr heap1 \<Rightarrow> flush_loop heap1 (i + 1) count)
      else Inr heap)"
  by pat_completeness auto
termination
  by (relation "measure (\<lambda>(heap, i, count). count - i)") auto

declare flush_loop.simps [simp del]

definition FlushPendingFrees :: "DebugHeap \<Rightarrow> error + DebugHeap" where
  "FlushPendingFrees heap =
     (case flush_loop heap 0 (m_PendingListSize heap) of
        Inl e \<Rightarrow> Inl e
      | Inr heap1 \<Rightarrow> Inr (heap1\<lparr>m_PendingListSize := 0\<rparr>))"

subsection \<open>The public operations\<close>

definition page_req_of :: "nat \<Rightarrow> nat" where
  "page_req_of user_size = u32 (1 + u32 (u64 (u64 user_size + kPageSize - 1) div kPageSize))"

text \<open>\<open>if (NULL != (ptr = AllocFromFreeList(heap, page_req)))\<close> followed by \<open>FinalizeAlloc\<close>
  and the guard's leave: the two places of \<open>DebugHeapAllocate\<close> that return a result.\<close>

definition finish_alloc :: "DebugHeap \<Rightarrow> nat \<Rightarrow> nat \<Rightarrow> nat \<Rightarrow> nat \<Rightarrow> error + (DebugHeap \<times> nat)" where
  "finish_alloc heap ptr user_size page_req user_alignment =
     (case FinalizeAlloc heap ptr user_size page_req user_alignment of
        Inl e \<Rightarrow> Inl e
      | Inr (heap1, result) \<Rightarrow>
          (case DEBUG_THREAD_GUARD_LEAVE heap1 of
             Inl e \<Rightarrow> Inl e
           | Inr heap2 \<Rightarrow> Inr (heap2, result)))"

definition alloc_after_flush :: "DebugHeap \<Rightarrow> nat \<Rightarrow> nat \<Rightarrow> nat \<Rightarrow> error + (DebugHeap \<times> nat)" where
  "alloc_after_flush heap user_size page_req user_alignment =
     (case FlushPendingFrees heap of
        Inl e \<Rightarrow> Inl e
      | Inr heap1 \<Rightarrow>
          (case AllocFromFreeList heap1 page_req of
             Inl e \<Rightarrow> Inl e
           | Inr (heap2, ptr) \<Rightarrow>
               (if ptr \<noteq> 0 then finish_alloc heap2 ptr user_size page_req user_alignment
                else (case DEBUG_THREAD_GUARD_LEAVE heap2 of
                        Inl e \<Rightarrow> Inl e
                      | Inr heap3 \<Rightarrow> Inr (heap3, 0)))))"

definition DebugHeapAllocate :: "DebugHeap \<Rightarrow> nat \<Rightarrow> nat \<Rightarrow> error + (DebugHeap \<times> nat)" where
  "DebugHeapAllocate heap user_size user_alignment =
     (case DEBUG_THREAD_GUARD_ENTER heap of
        Inl e \<Rightarrow> Inl e
      | Inr heap1 \<Rightarrow>
          (let page_req = page_req_of user_size
           in (case AllocFromFreeList heap1 page_req of
                 Inl e \<Rightarrow> Inl e
               | Inr (heap2, ptr) \<Rightarrow>
                   (if ptr \<noteq> 0 then finish_alloc heap2 ptr user_size page_req user_alignment
                    else alloc_after_flush heap2 user_size page_req user_alignment))))"

definition page_index_of :: "DebugHeap \<Rightarrow> nat \<Rightarrow> nat" where
  "page_index_of heap ptr_in =
     u32 (u64 (u64 ptr_in + 2 ^ 64 - u64 (m_BaseAddress heap)) div kPageSize)"

definition free_block :: "DebugHeap \<Rightarrow> nat \<Rightarrow> nat \<Rightarrow> error + DebugHeap" where
  "free_block heap page_index block =
     (if \<not> m_Allocated (m_Blocks heap block) then Inl (AssertFailed BlockStateCorrupted)
      else if m_PendingFree (m_Blocks heap block) then Inl (AssertFailed BlockStateCorrupted)
      else (let heap1 = upd_block heap block (\<lambda>r. r\<lparr>m_Allocated := False\<rparr>);
                heap2 = upd_block heap1 block (\<lambda>r. r\<lparr>m_PendingFree := True\<rparr>);
                heap3 = heap2\<lparr>m_BlockLookup := fun_upd (m_BlockLookup heap2) page_index None\<rparr>
            in (case lookup_clear heap3 page_index 1 (m_PageCount (m_Blocks heap3 block)) of
                  Inl e \<Rightarrow> Inl e
                | Inr u \<Rightarrow>
                    (if \<not> m_PendingListSize heap3 < m_HeapPageCount heap3 then Inl OutOfBounds
                     else (let heap4 = heap3\<lparr>m_PendingList := fun_upd (m_PendingList heap3)
                                                                 (m_PendingListSize heap3) (Some block),
                                               m_PendingListSize := u32 (m_PendingListSize heap3 + 1)\<rparr>;
                               block_base = u64 (m_BaseAddress heap4
                                                 + m_PageIndex (m_Blocks heap4 block) * kPageSize)
                           in VmDecommit heap4 block_base
                                (u64 (u64 (m_PageCount (m_Blocks heap4 block) + 2 ^ 64 - 1) * kPageSize)))))))"

definition DebugHeapFree :: "DebugHeap \<Rightarrow> nat \<Rightarrow> error + DebugHeap" where
  "DebugHeapFree heap ptr_in =
     (case DEBUG_THREAD_GUARD_ENTER heap of
        Inl e \<Rightarrow> Inl e
      | Inr heap1 \<Rightarrow>
          (let page_index = page_index_of heap1 ptr_in
           in (if \<not> page_index < m_HeapPageCount heap1 then Inl (AssertFailed InvalidPointerFreed)
               else (case m_BlockLookup heap1 page_index of
                       None \<Rightarrow> Inl (AssertFailed DoubleFree)
                     | Some block \<Rightarrow>
                         (case free_block heap1 page_index block of
                            Inl e \<Rightarrow> Inl e
                          | Inr heap2 \<Rightarrow> DEBUG_THREAD_GUARD_LEAVE heap2)))))"

text \<open>\<open>(block->m_PageCount - 1) * kPageSize - ptr % kPageSize\<close>: the bit-field is promoted to
  \<open>int\<close>, so the product is an \<open>int\<close>, and its overflow is undefined behaviour; the
  difference is taken in 64 bits.\<close>

definition alloc_size_of :: "nat \<Rightarrow> nat \<Rightarrow> error + nat" where
  "alloc_size_of page_count ptr =
     (let bytes = (int page_count - 1) * int kPageSize
      in (if bytes < 2 ^ 31
          then Inr (nat ((bytes - int (ptr mod kPageSize)) mod 2 ^ 64))
          else Inl SignedOverflow))"

definition DebugHeapGetAllocSize :: "DebugHeap \<Rightarrow> nat \<Rightarrow> error + (DebugHeap \<times> nat)" where
  "DebugHeapGetAllocSize heap ptr_in =
     (case DEBUG_THREAD_GUARD_ENTER heap of
        Inl e \<Rightarrow> Inl e
      | Inr heap1 \<Rightarrow>
          (let page_index = page_index_of heap1 ptr_in
           in (if \<not> page_index < m_HeapPageCount heap1 then Inl (AssertFailed InvalidPointer)
               else (case m_BlockLookup heap1 page_index of
                       None \<Rightarrow> Inl NullDeref
                     | Some block \<Rightarrow>
                         (case alloc_size_of (m_PageCount (m_Blocks heap1 block)) (u64 ptr_in) of
                            Inl e \<Rightarrow> Inl e
                          | Inr result \<Rightarrow>
                              (case DEBUG_THREAD_GUARD_LEAVE heap1 of
                                 Inl e \<Rightarrow> Inl e
                               | Inr heap2 \<Rightarrow> Inr (heap2, result)))))))"

definition DebugHeapOwns :: "DebugHeap \<Rightarrow> nat \<Rightarrow> error + (DebugHeap \<times> nat)" where
  "DebugHeapOwns heap buffer =
     (case DEBUG_THREAD_GUARD_ENTER heap of
        Inl e \<Rightarrow> Inl e
      | Inr heap1 \<Rightarrow>
          (let ptr = u64 buffer;
               base = u64 (m_BaseAddress heap1);
               end_addr = u64 (base + m_HeapPageCount heap1 * kPageSize);
               status = (if base \<le> ptr \<and> ptr \<le> end_addr then 1 else 0)
           in (case DEBUG_THREAD_GUARD_LEAVE heap1 of
                 Inl e \<Rightarrow> Inl e
               | Inr heap2 \<Rightarrow> Inr (heap2, status))))"

subsection \<open>Sequences of public operations\<close>

text \<open>A client of the heap, such as \<open>main\<close> of demo.c, is a sequence of calls. \<open>exec\<close> runs
  one call and gives the new heap and the value returned (0 for \<open>DebugHeapFree\<close>, which
  returns nothing); \<open>run\<close> runs a sequence and collects the values; \<open>run_from_init\<close> starts
  from \<open>DebugHeapInit\<close>. A client that goes on with the null handle of a failed
  \<open>DebugHeapInit\<close> dereferences it in its first call.\<close>

datatype call = Allocate nat nat | Free nat | GetAllocSize nat | Owns nat

fun exec :: "DebugHeap \<Rightarrow> call \<Rightarrow> error + (DebugHeap \<times> nat)" where
  "exec heap (Allocate user_size user_alignment) = DebugHeapAllocate heap user_size user_alignment"
| "exec heap (Free ptr) = (case DebugHeapFree heap ptr of Inl e \<Rightarrow> Inl e | Inr heap1 \<Rightarrow> Inr (heap1, 0))"
| "exec heap (GetAllocSize ptr) = DebugHeapGetAllocSize heap ptr"
| "exec heap (Owns ptr) = DebugHeapOwns heap ptr"

fun run :: "DebugHeap \<Rightarrow> call list \<Rightarrow> error + (DebugHeap \<times> nat list)" where
  "run heap [] = Inr (heap, [])"
| "run heap (c # cs) =
     (case exec heap c of
        Inl e \<Rightarrow> Inl e
      | Inr (heap1, r) \<Rightarrow>
          (case run heap1 cs of
             Inl e \<Rightarrow> Inl e
           | Inr (heap2, rs) \<Rightarrow> Inr (heap2, r # rs)))"

definition run_from_init :: "nat \<Rightarrow> nat \<Rightarrow> call list \<Rightarrow> error + (DebugHeap \<times> nat list)" where
  "run_from_init os_result mem_size_bytes cs =
     (case DebugHeapInit os_result mem_size_bytes of
        Inl e \<Rightarrow> Inl e
      | Inr None \<Rightarrow> (case cs of [] \<Rightarrow> Inl NullDeref | c # cs' \<Rightarrow> Inl NullDeref)
      | Inr (Some heap) \<Rightarrow> run heap cs)"

subsection \<open>The address-order block list\<close>

text \<open>The first block in address order is the root record \<open>m_Blocks[0]\<close>: it is created
  with no predecessor and nothing ever gives it one. \<open>walk\<close> follows \<open>m_Next\<close> from a
  block and lists the page index and page count of every block it passes; it gives up
  (\<open>None\<close>) after \<open>fuel\<close> blocks. \<open>tiles\<close> says that a list of (index, count) pairs covers
  the pages from \<open>start\<close> to \<open>stop\<close> without gap or overlap, each block non-empty.\<close>

fun walk :: "(nat \<Rightarrow> DebugBlockInfo) \<Rightarrow> nat \<Rightarrow> nat option \<Rightarrow> (nat \<times> nat) list option" where
  "walk blocks fuel None = Some []"
| "walk blocks 0 (Some b) = None"
| "walk blocks (Suc fuel) (Some b) =
     (case walk blocks fuel (m_Next (blocks b)) of
        None \<Rightarrow> None
      | Some xs \<Rightarrow> Some ((m_PageIndex (blocks b), m_PageCount (blocks b)) # xs))"

fun tiles :: "nat \<Rightarrow> nat \<Rightarrow> (nat \<times> nat) list \<Rightarrow> bool" where
  "tiles start stop [] = (start = stop)"
| "tiles start stop ((i, n) # xs) = (i = start \<and> 0 < n \<and> tiles (start + n) stop xs)"

definition tiling :: "DebugHeap \<Rightarrow> bool" where
  "tiling heap =
     (case walk (m_Blocks heap) (m_MaxAllocs heap) (Some 0) of
        None \<Rightarrow> False
      | Some xs \<Rightarrow> xs \<noteq> [] \<and> tiles 0 (m_HeapPageCount heap) xs)"

subsection \<open>Best fit\<close>

text \<open>The choice that the specification asks of the free-list search: entry \<open>i\<close> of the
  free-list holds a block of at least \<open>page_req\<close> pages, no entry that fits has fewer
  pages, and no entry with as many pages stands at a lower index. \<open>scan_inv\<close> is the
  invariant of the scan loop: the same, for the entries seen so far.\<close>

definition fits :: "DebugHeap \<Rightarrow> nat \<Rightarrow> nat \<Rightarrow> bool" where
  "fits heap page_req j =
     (case m_FreeList heap j of
        None \<Rightarrow> False
      | Some c \<Rightarrow> page_req \<le> m_PageCount (m_Blocks heap c))"

definition count_at :: "DebugHeap \<Rightarrow> nat \<Rightarrow> nat" where
  "count_at heap j = (case m_FreeList heap j of None \<Rightarrow> 0 | Some c \<Rightarrow> m_PageCount (m_Blocks heap c))"

definition best_fit :: "DebugHeap \<Rightarrow> nat \<Rightarrow> nat \<Rightarrow> bool" where
  "best_fit heap page_req i =
     (i < m_FreeListSize heap \<and> fits heap page_req i
      \<and> (\<forall>j < m_FreeListSize heap. fits heap page_req j \<longrightarrow>
            count_at heap i \<le> count_at heap j \<and> (count_at heap j = count_at heap i \<longrightarrow> i \<le> j)))"

definition scan_inv :: "DebugHeap \<Rightarrow> nat \<Rightarrow> nat \<Rightarrow> nat option \<times> nat \<times> nat \<Rightarrow> bool" where
  "scan_inv heap page_req i best =
     (case best of
        (None, bs, bi) \<Rightarrow>
          bs = 2 ^ 32 - 1 \<and> (\<forall>j < i. fits heap page_req j \<longrightarrow> 2 ^ 32 - 1 \<le> count_at heap j)
      | (Some b, bs, bi) \<Rightarrow>
          bi < i \<and> m_FreeList heap bi = Some b \<and> m_PageCount (m_Blocks heap b) = bs
          \<and> page_req \<le> bs \<and> bs < 2 ^ 32 - 1
          \<and> \<not> m_Allocated (m_Blocks heap b) \<and> \<not> m_PendingFree (m_Blocks heap b)
          \<and> (\<forall>j < i. fits heap page_req j \<longrightarrow>
                bs \<le> count_at heap j \<and> (count_at heap j = bs \<longrightarrow> bi \<le> j)))"

subsection \<open>Pointers and pages\<close>

text \<open>\<open>page_of\<close> is the page of a pointer as the specification names it: the number of
  whole pages between the base of the user region and the pointer. It is written with the
  subtraction and division of the natural numbers, apart from \<open>page_index_of\<close>, the 32-bit
  value that \<open>DebugHeapFree\<close> computes. \<open>reuses\<close> says that a call was an allocation that
  returned a pointer into a given page.

  \<open>in_address_space\<close> says that the bookkeeping pages and the user pages, laid out from the
  address that \<open>mmap\<close> answered with, end inside the 64-bit address space; \<open>region_ok\<close> is
  what this gives for a heap: its user region lies below \<open>2 ^ 64\<close> and does not start at
  address 0.\<close>

definition page_of :: "DebugHeap \<Rightarrow> nat \<Rightarrow> nat" where
  "page_of heap p = (p - m_BaseAddress heap) div kPageSize"

fun reuses :: "DebugHeap \<Rightarrow> nat \<Rightarrow> call \<Rightarrow> nat \<Rightarrow> bool" where
  "reuses heap page (Allocate user_size user_alignment) r = (r \<noteq> 0 \<and> page_of heap r = page)"
| "reuses heap page (Free ptr) r = False"
| "reuses heap page (GetAllocSize ptr) r = False"
| "reuses heap page (Owns ptr) r = False"

definition in_address_space :: "nat \<Rightarrow> nat \<Rightarrow> bool" where
  "in_address_space os_result mem_size_bytes =
     (os_result + (bookkeeping_pages (u64 mem_size_bytes div kPageSize)
                   + u64 mem_size_bytes div kPageSize) * kPageSize \<le> 2 ^ 64)"

definition region_ok :: "DebugHeap \<Rightarrow> bool" where
  "region_ok h =
     (0 < m_BaseAddress h \<and> m_BaseAddress h + m_HeapPageCount h * kPageSize \<le> 2 ^ 64
      \<and> m_HeapPageCount h < 2 ^ 32)"

text \<open>\<open>same_region\<close>: two states of a heap with the same user region, the same pool size, the
  same reservation and the same lookup table.\<close>

definition same_region :: "DebugHeap \<Rightarrow> DebugHeap \<Rightarrow> bool" where
  "same_region h h' =
     (m_BaseAddress h' = m_BaseAddress h \<and> m_HeapPageCount h' = m_HeapPageCount h
      \<and> m_MaxAllocs h' = m_MaxAllocs h \<and> vm_mapped h' = vm_mapped h
      \<and> m_BlockLookup h' = m_BlockLookup h)"

subsection \<open>The invariant of the block list\<close>

text \<open>\<open>seg B p s bs q e\<close>: following \<open>m_Next\<close> in the store \<open>B\<close> from the pointer \<open>p\<close> passes
  the records \<open>bs\<close> and arrives at the pointer \<open>q\<close>; the first block starts at page \<open>s\<close>,
  each block is non-empty and starts where the one before it ends, and the last one ends at
  page \<open>e\<close>.\<close>

fun seg :: "(nat \<Rightarrow> DebugBlockInfo) \<Rightarrow> nat option \<Rightarrow> nat \<Rightarrow> nat list \<Rightarrow> nat option \<Rightarrow> nat \<Rightarrow> bool" where
  "seg B p s [] q e = (p = q \<and> s = e)"
| "seg B p s (b # bs) q e =
     (p = Some b \<and> m_PageIndex (B b) = s \<and> 0 < m_PageCount (B b)
      \<and> seg B (m_Next (B b)) (s + m_PageCount (B b)) bs q e)"

text \<open>\<open>blocks_ok B M P bs\<close>: the records \<open>bs\<close> are the block list, from record 0 to NULL,
  over the pages \<open>0\<close> to \<open>P\<close>; \<open>P\<close> fits the 31-bit fields; the records of the list are
  records of the pool of \<open>M\<close>, none of them carries the mark of an unused record (both
  flags set), and their \<open>m_Prev\<close> is NULL or a record of the pool; every other record of the
  pool carries that mark. Nothing is asked of the \<open>m_Prev\<close> pointers beyond that: the split
  in \<open>AllocFromFreeList\<close> leaves the \<open>m_Prev\<close> of the block after the tail as it was.

  \<open>ptrs_ok\<close>: the head of the list of unused records, the entries of the free-list and the
  entries of the lookup table are records of the pool. \<open>pending_ok h i bs\<close>: the entries of
  the pending list from index \<open>i\<close> on are distinct blocks of the list that are pending.
  \<open>vm_ok\<close>: the reservation and the user region lie inside the address space, the region
  above the first page. \<open>merged B x c fu\<close> is the store after block \<open>c\<close> has been merged into
  the block \<open>x\<close> before it and its record given back, \<open>fu\<close> being the head of the list of
  unused records.\<close>

definition blocks_ok :: "(nat \<Rightarrow> DebugBlockInfo) \<Rightarrow> nat \<Rightarrow> nat \<Rightarrow> nat list \<Rightarrow> bool" where
  "blocks_ok B M P bs =
     (seg B (Some 0) 0 bs None P \<and> bs \<noteq> [] \<and> m_Prev (B 0) = None \<and> P < 2 ^ 31
      \<and> (\<forall>b \<in> set bs. b < M \<and> \<not> (m_Allocated (B b) \<and> m_PendingFree (B b))
            \<and> (\<forall>p. m_Prev (B b) = Some p \<longrightarrow> p < M))
      \<and> (\<forall>r < M. r \<notin> set bs \<longrightarrow> m_Allocated (B r) \<and> m_PendingFree (B r)
            \<and> (\<forall>v. m_Next (B r) = Some v \<longrightarrow> v < M)))"

definition ptrs_ok :: "DebugHeap \<Rightarrow> bool" where
  "ptrs_ok h =
     ((\<forall>u. m_FirstUnusedBlockInfo h = Some u \<longrightarrow> u < m_MaxAllocs h)
      \<and> (\<forall>j < m_FreeListSize h. \<forall>b. m_FreeList h j = Some b \<longrightarrow> b < m_MaxAllocs h)
      \<and> (\<forall>p b. m_BlockLookup h p = Some b \<longrightarrow> b < m_MaxAllocs h))"

definition pending_ok :: "DebugHeap \<Rightarrow> nat \<Rightarrow> nat list \<Rightarrow> bool" where
  "pending_ok h i bs =
     ((\<forall>j. i \<le> j \<and> j < m_PendingListSize h \<longrightarrow>
          (\<exists>b. m_PendingList h j = Some b \<and> b \<in> set bs
                \<and> \<not> m_Allocated (m_Blocks h b) \<and> m_PendingFree (m_Blocks h b)))
      \<and> (\<forall>j k. i \<le> j \<and> j < k \<and> k < m_PendingListSize h \<longrightarrow>
            m_PendingList h j \<noteq> m_PendingList h k))"

definition vm_ok :: "DebugHeap \<Rightarrow> bool" where
  "vm_ok h =
     (list_all (\<lambda>(lo, hi). hi \<le> 2 ^ 64) (vm_mapped h)
      \<and> kPageSize < m_BaseAddress h
      \<and> m_BaseAddress h + m_HeapPageCount h * kPageSize \<le> 2 ^ 64)"

definition wf_heap :: "DebugHeap \<Rightarrow> nat \<Rightarrow> nat list \<Rightarrow> bool" where
  "wf_heap h i bs =
     (blocks_ok (m_Blocks h) (m_MaxAllocs h) (m_HeapPageCount h) bs
      \<and> ptrs_ok h \<and> pending_ok h i bs \<and> vm_ok h)"

definition heap_inv :: "DebugHeap \<Rightarrow> bool" where
  "heap_inv h = (m_ReentrancyGuard h = 0 \<and> (\<exists>bs. wf_heap h 0 bs))"

definition merged :: "(nat \<Rightarrow> DebugBlockInfo) \<Rightarrow> nat \<Rightarrow> nat \<Rightarrow> nat option \<Rightarrow> nat \<Rightarrow> DebugBlockInfo" where
  "merged B x c fu =
     (case m_Next (B c) of
        None \<Rightarrow> B
      | Some n \<Rightarrow> B(n := (B n)\<lparr>m_Prev := Some x\<rparr>))
     (x := (B x)\<lparr>m_Next := m_Next (B c),
                  m_PageCount := u31 (m_PageCount (B x) + m_PageCount (B c))\<rparr>,
      c := (B c)\<lparr>m_Allocated := True, m_PendingFree := True, m_Prev := None, m_Next := fu\<rparr>)"

subsection \<open>What a flush and a failed allocation leave\<close>

text \<open>\<open>no_fit heap page_req\<close>: no entry of the free-list holds a block of at least \<open>page_req\<close>
  pages. \<open>is_free\<close>: a block is \<open>Free\<close>, neither \<open>Allocated\<close> nor \<open>PendingFree\<close>.
  \<open>untouched h h' q\<close>: record \<open>q\<close> has the same page index, page count and flags in \<open>h'\<close> as
  in \<open>h\<close>.\<close>

definition no_fit :: "DebugHeap \<Rightarrow> nat \<Rightarrow> bool" where
  "no_fit heap page_req = list_all (\<lambda>j. \<not> fits heap page_req j) [0..<m_FreeListSize heap]"


definition untouched :: "DebugHeap \<Rightarrow> DebugHeap \<Rightarrow> nat \<Rightarrow> bool" where
  "untouched h h' q =
     (m_PageIndex (m_Blocks h' q) = m_PageIndex (m_Blocks h q)
      \<and> m_PageCount (m_Blocks h' q) = m_PageCount (m_Blocks h q)
      \<and> m_Allocated (m_Blocks h' q) = m_Allocated (m_Blocks h q)
      \<and> m_PendingFree (m_Blocks h' q) = m_PendingFree (m_Blocks h q))"

section \<open>Evaluating the model\<close>

text \<open>The unfolding rules for running the model on concrete inputs. A \<open>let\<close> is unfolded
  after its bound term has been evaluated (\<open>let_weak_cong\<close>).\<close>

lemmas int_defs = kPageSize_def u31_def u32_def u64_def sizeof_DebugHeap_def
  sizeof_DebugBlockInfo_def sizeof_ptr_def

lemmas vm_defs = in_mapped_def unmap_def VmAllocate_def VmFree_def VmCommit_def VmDecommit_def

lemmas op_defs = DEBUG_THREAD_GUARD_ENTER_def DEBUG_THREAD_GUARD_LEAVE_def AllocBlockInfo_def
  FreeBlockInfo_def upd_block_def zero_block_def bookkeeping_pages_def total_bytes_def
  init_heap_def fresh_heap_def DebugHeapInit_def destroy_size_def DebugHeapDestroy_def
  take_off_free_list_def carve_tail_def mark_allocated_def AllocFromFreeList_def and_not32_def
  ideal_offset_def aligned_offset_def FinalizeAlloc_def merge_left_def merge_right_def
  flush_entry_def FlushPendingFrees_def page_req_of_def finish_alloc_def alloc_after_flush_def
  DebugHeapAllocate_def page_index_of_def free_block_def DebugHeapFree_def alloc_size_of_def
  DebugHeapGetAllocSize_def DebugHeapOwns_def run_from_init_def

lemmas loop_simps = scan_free_list.simps lookup_clear.simps remove_from_free_list.simps
  flush_loop.simps

text \<open>The loop of \<open>DebugHeapInit\<close> in closed form.\<close>

lemma init_blocks_eq:
  "init_blocks i count blocks =
     (\<lambda>j. if i \<le> j \<and> j < count
          then (blocks j)\<lparr>m_Allocated := True, m_PendingFree := True, m_Prev := None,
                           m_Next := (if j + 1 < count then Some (j + 1) else None)\<rparr>
          else blocks j)"
proof (induction i count blocks rule: init_blocks.induct)
  case (1 i count blocks)
  show ?case
  proof (cases "i < count")
    case True
    let ?b = "blocks(i := (blocks i)\<lparr>m_Allocated := True, m_PendingFree := True, m_Prev := None,
                                     m_Next := (if i + 1 < count then Some (i + 1) else None)\<rparr>)"
    have "init_blocks i count blocks = init_blocks (i + 1) count ?b"
      using True by (subst init_blocks.simps) simp
    also note 1 [OF True]
    finally show ?thesis
      using True by (auto simp: fun_eq_iff)
  next
    case False
    then show ?thesis
      by (subst init_blocks.simps) (auto simp: fun_eq_iff)
  qed
qed

section \<open>Effects of the small steps\<close>

lemma guard_leave_Inr:
  "DEBUG_THREAD_GUARD_LEAVE h = Inr h' \<Longrightarrow> h' = h\<lparr>m_ReentrancyGuard := 0\<rparr>"
  by (auto simp: DEBUG_THREAD_GUARD_LEAVE_def Let_def split: if_splits)

lemma guard_enter_Inr:
  "DEBUG_THREAD_GUARD_ENTER h = Inr h' \<Longrightarrow> h' = h\<lparr>m_ReentrancyGuard := 1\<rparr>"
  by (auto simp: DEBUG_THREAD_GUARD_ENTER_def Let_def split: if_splits)

lemma VmDecommit_Inr:
  "VmDecommit h p s = Inr h' \<Longrightarrow> \<exists>f. h' = h\<lparr>vm_access := f\<rparr>"
  by (auto simp: VmDecommit_def split: if_splits)

lemma VmCommit_Inr:
  "VmCommit h p s = Inr h' \<Longrightarrow> \<exists>f. h' = h\<lparr>vm_access := f\<rparr>"
  by (auto simp: VmCommit_def split: if_splits)

lemma free_block_Inr:
  assumes "free_block h page_index block = Inr h'"
  shows "m_Allocated (m_Blocks h block) \<and> \<not> m_PendingFree (m_Blocks h block)
       \<and> m_BlockLookup h' = (m_BlockLookup h)(page_index := None)
       \<and> m_BaseAddress h' = m_BaseAddress h \<and> m_HeapPageCount h' = m_HeapPageCount h
       \<and> m_ReentrancyGuard h' = m_ReentrancyGuard h"
  using assms
  by (auto simp: free_block_def Let_def upd_block_def split: if_splits sum.splits dest!: VmDecommit_Inr)

section \<open>The free-list search\<close>

lemma scan_inv_step:
  assumes inv: "scan_inv heap page_req i best"
    and fl: "m_FreeList heap i = Some block"
    and na: "\<not> m_Allocated (m_Blocks heap block)" "\<not> m_PendingFree (m_Blocks heap block)"
  shows "scan_inv heap page_req (Suc i)
           (if page_req \<le> m_PageCount (m_Blocks heap block)
                \<and> m_PageCount (m_Blocks heap block) < fst (snd best)
            then (Some block, m_PageCount (m_Blocks heap block), i) else best)"
proof -
  let ?cc = "m_PageCount (m_Blocks heap block)"
  obtain bb bs bi where best: "best = (bb, bs, bi)" by (cases best)
  have ci: "count_at heap i = ?cc" and fi: "fits heap page_req i = (page_req \<le> ?cc)"
    using fl by (simp_all add: count_at_def fits_def)
  show ?thesis
  proof (cases bb)
    case None
    with inv best have bs: "bs = 2 ^ 32 - 1"
      and old: "\<And>j. j < i \<Longrightarrow> fits heap page_req j \<Longrightarrow> 2 ^ 32 - 1 \<le> count_at heap j"
      by (auto simp: scan_inv_def)
    show ?thesis
    proof (cases "page_req \<le> ?cc \<and> ?cc < bs")
      case True
      have "?cc \<le> count_at heap j \<and> (count_at heap j = ?cc \<longrightarrow> i \<le> j)"
        if "j < Suc i" "fits heap page_req j" for j
      proof (cases "j = i")
        case True
        then show ?thesis by (simp add: ci)
      next
        case False
        with that have "2 ^ 32 - 1 \<le> count_at heap j" by (intro old) simp_all
        with True bs show ?thesis by simp
      qed
      with True fl na bs show ?thesis
        by (auto simp: best scan_inv_def)
    next
      case False
      have "2 ^ 32 - 1 \<le> count_at heap j" if "j < Suc i" "fits heap page_req j" for j
      proof (cases "j = i")
        case True
        with that False bs show ?thesis by (simp add: ci fi)
      next
        case False
        with that show ?thesis by (intro old) simp_all
      qed
      with False None bs show ?thesis
        by (auto simp: best scan_inv_def)
    qed
  next
    case (Some b)
    with inv best have b: "bi < i" "m_FreeList heap bi = Some b" "m_PageCount (m_Blocks heap b) = bs"
        "page_req \<le> bs" "bs < 2 ^ 32 - 1" "\<not> m_Allocated (m_Blocks heap b)"
        "\<not> m_PendingFree (m_Blocks heap b)"
      and old: "\<And>j. j < i \<Longrightarrow> fits heap page_req j \<Longrightarrow>
                  bs \<le> count_at heap j \<and> (count_at heap j = bs \<longrightarrow> bi \<le> j)"
      by (auto simp: scan_inv_def)
    show ?thesis
    proof (cases "page_req \<le> ?cc \<and> ?cc < bs")
      case True
      have "?cc \<le> count_at heap j \<and> (count_at heap j = ?cc \<longrightarrow> i \<le> j)"
        if "j < Suc i" "fits heap page_req j" for j
      proof (cases "j = i")
        case True
        then show ?thesis by (simp add: ci)
      next
        case False
        with that have "bs \<le> count_at heap j" using old [of j] by simp
        with True show ?thesis by simp
      qed
      with True fl na b show ?thesis
        by (auto simp: best scan_inv_def)
    next
      case False
      have "bs \<le> count_at heap j \<and> (count_at heap j = bs \<longrightarrow> bi \<le> j)"
        if "j < Suc i" "fits heap page_req j" for j
      proof (cases "j = i")
        case True
        with that False b show ?thesis by (simp add: ci fi)
      next
        case False
        with that show ?thesis using old [of j] by simp
      qed
      with False Some b show ?thesis
        by (auto simp: best scan_inv_def)
    qed
  qed
qed

lemma scan_free_list_inv:
  assumes "scan_free_list heap page_req i count best = Inr best'"
    and "i \<le> count"
    and "scan_inv heap page_req i best"
  shows "scan_inv heap page_req count best'"
  using assms
proof (induction heap page_req i count best rule: scan_free_list.induct)
  case (1 heap page_req i count best)
  show ?case
  proof (cases "i < count")
    case False
    with "1.prems" have "count = i" "best' = best"
      by (simp_all add: scan_free_list.simps)
    with "1.prems"(3) show ?thesis by simp
  next
    case True
    from "1.prems"(1) True obtain block where
      inr: "i < m_HeapPageCount heap" and fl: "m_FreeList heap i = Some block"
      and na: "\<not> m_Allocated (m_Blocks heap block)" and np: "\<not> m_PendingFree (m_Blocks heap block)"
      and rec: "scan_free_list heap page_req (i + 1) count
                  (if page_req \<le> m_PageCount (m_Blocks heap block)
                       \<and> m_PageCount (m_Blocks heap block) < fst (snd best)
                   then (Some block, m_PageCount (m_Blocks heap block), i) else best) = Inr best'"
      by (subst (asm) scan_free_list.simps) (auto simp: Let_def split: if_splits option.splits)
    from True have le: "i + 1 \<le> count" by simp
    have step: "scan_inv heap page_req (i + 1)
           (if page_req \<le> m_PageCount (m_Blocks heap block)
                \<and> m_PageCount (m_Blocks heap block) < fst (snd best)
            then (Some block, m_PageCount (m_Blocks heap block), i) else best)"
      using scan_inv_step [OF "1.prems"(3) fl na np] by simp
    show ?thesis
      by (rule "1.IH" [OF True _ fl refl _ _ rec le step]) (use inr na np in simp_all)
  qed
qed

lemma carve_tail_Inr:
  assumes "carve_tail h b u req = Inr h'" and "\<not> m_Allocated (m_Blocks h b)"
  shows "m_PageIndex (m_Blocks h' b) = m_PageIndex (m_Blocks h b)
       \<and> m_BaseAddress h' = m_BaseAddress h \<and> m_BlockLookup h' = m_BlockLookup h
       \<and> m_HeapPageCount h' = m_HeapPageCount h"
  using assms
  by (auto simp: carve_tail_def AllocBlockInfo_def upd_block_def Let_def
           split: sum.splits option.splits if_splits prod.splits cong: let_weak_cong)

lemma mark_allocated_Inr:
  assumes "mark_allocated h b = Inr (h', p)"
  shows "m_Allocated (m_Blocks h' b)
       \<and> m_BlockLookup h' (m_PageIndex (m_Blocks h b)) = Some b
       \<and> p = u64 (m_BaseAddress h + m_PageIndex (m_Blocks h b) * kPageSize)"
  using assms
  by (auto simp: mark_allocated_def upd_block_def Let_def
           split: sum.splits option.splits if_splits)

section \<open>The address-order chain\<close>

lemma seg_append:
  "seg B p s (as @ bs) q e = (\<exists>r m. seg B p s as r m \<and> seg B r m bs q e)"
  by (induction as arbitrary: p s) auto

lemma seg_le: "seg B p s bs q e \<Longrightarrow> s \<le> e"
proof (induction bs arbitrary: p s)
  case Nil
  then show ?case by simp
next
  case (Cons a bs)
  then have "seg B (m_Next (B a)) (s + m_PageCount (B a)) bs q e" by simp
  from Cons.IH [OF this] show ?case by simp
qed

lemma seg_less: "seg B p s bs q e \<Longrightarrow> bs \<noteq> [] \<Longrightarrow> s < e"
  by (cases bs) (auto dest!: seg_le)

lemma seg_bounds:
  "seg B p s bs q e \<Longrightarrow> b \<in> set bs \<Longrightarrow>
     s \<le> m_PageIndex (B b) \<and> m_PageIndex (B b) + m_PageCount (B b) \<le> e \<and> 0 < m_PageCount (B b)"
proof (induction bs arbitrary: p s)
  case Nil
  then show ?case by simp
next
  case (Cons a bs)
  show ?case
  proof (cases "b = a")
    case True
    with Cons.prems show ?thesis by (auto dest!: seg_le)
  next
    case False
    with Cons.prems have "b \<in> set bs"
      and "seg B (m_Next (B a)) (s + m_PageCount (B a)) bs q e" by auto
    from Cons.IH [OF this(2) this(1)] show ?thesis by simp
  qed
qed

lemma seg_distinct: "seg B p s bs q e \<Longrightarrow> distinct bs"
proof (induction bs arbitrary: p s)
  case Nil
  then show ?case by simp
next
  case (Cons a bs)
  then have rest: "seg B (m_Next (B a)) (s + m_PageCount (B a)) bs q e"
    and a: "m_PageIndex (B a) = s" "0 < m_PageCount (B a)" by auto
  have "a \<notin> set bs"
  proof
    assume "a \<in> set bs"
    from seg_bounds [OF rest this] a show False by simp
  qed
  with Cons.IH [OF rest] show ?case by simp
qed

text \<open>A segment depends on the page index, the page count and the successor of its blocks
  only.\<close>

lemma seg_cong:
  assumes "\<And>b. b \<in> set bs \<Longrightarrow> m_PageIndex (B' b) = m_PageIndex (B b)
                 \<and> m_PageCount (B' b) = m_PageCount (B b) \<and> m_Next (B' b) = m_Next (B b)"
  shows "seg B' p s bs q e = seg B p s bs q e"
  using assms by (induction bs arbitrary: p s) auto

lemma seg_upd_other:
  "b \<notin> set bs \<Longrightarrow> seg (B(b := r)) p s bs q e = seg B p s bs q e"
  by (rule seg_cong) auto

text \<open>Cutting a segment at one of its blocks.\<close>

lemma seg_split:
  assumes "seg B p s bs q e" and "b \<in> set bs"
  shows "\<exists>as cs. bs = as @ b # cs \<and> seg B p s as (Some b) (m_PageIndex (B b))
           \<and> seg B (m_Next (B b)) (m_PageIndex (B b) + m_PageCount (B b)) cs q e"
proof -
  from assms(2) obtain as cs where bs: "bs = as @ b # cs"
    by (auto simp: in_set_conv_decomp)
  with assms(1) show ?thesis
    by (auto simp: seg_append)
qed

text \<open>The block that ends where another begins is its predecessor.\<close>

lemma seg_pred:
  assumes s: "seg B p s bs q e" and x: "x \<in> set bs" and c: "c \<in> set bs"
    and adj: "m_PageIndex (B x) + m_PageCount (B x) = m_PageIndex (B c)"
  shows "\<exists>as cs. bs = as @ x # c # cs"
proof -
  from seg_split [OF s x] obtain as cs where bs: "bs = as @ x # cs"
    and right: "seg B (m_Next (B x)) (m_PageIndex (B x) + m_PageCount (B x)) cs q e"
    and left: "seg B p s as (Some x) (m_PageIndex (B x))"
    by blast
  from seg_bounds [OF s x] have posx: "0 < m_PageCount (B x)" by simp
  have "c \<noteq> x" using adj posx by auto
  have "c \<notin> set as"
  proof
    assume "c \<in> set as"
    from seg_bounds [OF left this] adj posx show False by simp
  qed
  with c bs \<open>c \<noteq> x\<close> have ccs: "c \<in> set cs" by auto
  then obtain d ds where cs: "cs = d # ds" by (cases cs) auto
  have "d = c"
  proof (rule ccontr)
    assume "d \<noteq> c"
    with ccs cs have cds: "c \<in> set ds" by simp
    from right cs have d: "m_PageIndex (B d) = m_PageIndex (B x) + m_PageCount (B x)"
      "0 < m_PageCount (B d)"
      and rest: "seg B (m_Next (B d)) (m_PageIndex (B x) + m_PageCount (B x) + m_PageCount (B d)) ds q e"
      by auto
    from seg_bounds [OF rest cds] adj d show False by simp
  qed
  with bs cs show ?thesis by auto
qed

text \<open>What \<open>walk\<close> finds along a segment that ends in NULL, and that it tiles.\<close>

lemma seg_walk:
  assumes "seg B p s bs None e" and "length bs \<le> fuel"
  shows "walk B fuel p = Some (map (\<lambda>b. (m_PageIndex (B b), m_PageCount (B b))) bs)"
  using assms
proof (induction bs arbitrary: p s fuel)
  case Nil
  then show ?case by (cases fuel) auto
next
  case (Cons a bs)
  then obtain f where fuel: "fuel = Suc f" by (cases fuel) auto
  with Cons.prems have "seg B (m_Next (B a)) (s + m_PageCount (B a)) bs None e" "length bs \<le> f"
    and p: "p = Some a"
    by auto
  from Cons.IH [OF this(1,2)] show ?case by (simp add: fuel p)
qed

lemma seg_tiles:
  "seg B p s bs q e \<Longrightarrow> tiles s e (map (\<lambda>b. (m_PageIndex (B b), m_PageCount (B b))) bs)"
  by (induction bs arbitrary: p s) auto

lemma distinct_length_le:
  assumes "distinct bs" and "\<forall>b \<in> set bs. b < (M :: nat)"
  shows "length bs \<le> M"
proof -
  have "length bs = card (set bs)" using assms(1) by (simp add: distinct_card)
  also have "\<dots> \<le> card {..<M}" using assms(2) by (intro card_mono) auto
  finally show ?thesis by simp
qed

lemma blocks_ok_distinct: "blocks_ok B M P bs \<Longrightarrow> distinct bs"
  by (auto simp: blocks_ok_def dest: seg_distinct)

lemma blocks_ok_member:
  assumes "blocks_ok B M P bs" and "r < M" and "\<not> (m_Allocated (B r) \<and> m_PendingFree (B r))"
  shows "r \<in> set bs"
  using assms unfolding blocks_ok_def by blast

lemma blocks_ok_bounds:
  assumes "blocks_ok B M P bs" and "b \<in> set bs"
  shows "m_PageIndex (B b) + m_PageCount (B b) \<le> P" "0 < m_PageCount (B b)" "P < 2 ^ 31" "b < M"
  using assms seg_bounds [of B "Some 0" 0 bs None P b] unfolding blocks_ok_def by auto

text \<open>Splitting a block of the chain: record \<open>t\<close> from the pool takes the tail.\<close>

lemma blocks_ok_split:
  assumes ok: "blocks_ok B M P bs" and b: "b \<in> set bs"
    and t: "t < M" "t \<notin> set bs"
    and req: "0 < req" "req < m_PageCount (B b)"
    and T: "m_PageIndex T = m_PageIndex (B b) + req" "m_PageCount T = m_PageCount (B b) - req"
      "m_Next T = m_Next (B b)" "m_Prev T = Some b" "\<not> m_Allocated T" "\<not> m_PendingFree T"
    and B': "B' = B(t := T, b := (B b)\<lparr>m_Next := Some t, m_PageCount := req\<rparr>)"
  shows "\<exists>bs'. blocks_ok B' M P bs' \<and> set bs' = insert t (set bs)"
proof -
  from ok have s: "seg B (Some 0) 0 bs None P" by (simp add: blocks_ok_def)
  from seg_split [OF s b] obtain as cs where bs: "bs = as @ b # cs"
    and left: "seg B (Some 0) 0 as (Some b) (m_PageIndex (B b))"
    and right: "seg B (m_Next (B b)) (m_PageIndex (B b) + m_PageCount (B b)) cs None P"
    by blast
  from blocks_ok_distinct [OF ok] bs have nb: "b \<notin> set as" "b \<notin> set cs" by auto
  from t bs have nt: "t \<notin> set as" "t \<notin> set cs" "t \<noteq> b" by auto
  have left': "seg B' (Some 0) 0 as (Some b) (m_PageIndex (B b))"
    using left nb nt by (simp add: B' seg_upd_other)
  have right': "seg B' (m_Next (B b)) (m_PageIndex (B b) + m_PageCount (B b)) cs None P"
    using right nb nt by (simp add: B' seg_upd_other)
  have mid: "seg B' (Some b) (m_PageIndex (B b)) (b # t # cs) None P"
    using right' req T nt by (simp add: B')
  let ?bs' = "as @ b # t # cs"
  have s': "seg B' (Some 0) 0 ?bs' None P"
    using left' mid by (auto simp: seg_append)
  have zero: "0 \<in> set bs" using ok s by (cases bs) (auto simp: blocks_ok_def)
  have "t \<noteq> 0"
  proof
    assume "t = 0"
    with zero t show False by simp
  qed
  then have prev0: "m_Prev (B' 0) = None"
    using ok by (auto simp: B' blocks_ok_def)
  have mem: "x < M \<and> \<not> (m_Allocated (B' x) \<and> m_PendingFree (B' x))
               \<and> (\<forall>p. m_Prev (B' x) = Some p \<longrightarrow> p < M)" if "x \<in> set ?bs'" for x
  proof (cases "x = t")
    case True
    with t T nt blocks_ok_bounds(4) [OF ok b] show ?thesis by (simp add: B')
  next
    case False
    with that bs have "x \<in> set bs" by auto
    with ok have "x < M \<and> \<not> (m_Allocated (B x) \<and> m_PendingFree (B x))
               \<and> (\<forall>p. m_Prev (B x) = Some p \<longrightarrow> p < M)"
      by (simp add: blocks_ok_def)
    with False show ?thesis by (cases "x = b") (auto simp: B')
  qed
  have pool: "m_Allocated (B' r) \<and> m_PendingFree (B' r) \<and> (\<forall>v. m_Next (B' r) = Some v \<longrightarrow> v < M)"
    if "r < M" "r \<notin> set ?bs'" for r
  proof -
    from that bs have "r \<notin> set bs" "r \<noteq> t" "r \<noteq> b" by auto
    with ok that(1) show ?thesis by (simp add: B' blocks_ok_def)
  qed
  have P: "P < 2 ^ 31" using ok by (simp add: blocks_ok_def)
  have "blocks_ok B' M P ?bs'"
    unfolding blocks_ok_def
    by (intro conjI ballI allI impI s' prev0 P) (use mem pool in blast)+
  moreover have "set ?bs' = insert t (set bs)" using bs by auto
  ultimately show ?thesis by blast
qed

text \<open>Merging block \<open>c\<close> into its predecessor \<open>x\<close>; \<open>c\<close> goes back to the pool.\<close>

lemma blocks_ok_merge:
  assumes ok: "blocks_ok B M P bs" and x: "x \<in> set bs" and c: "m_Next (B x) = Some c"
    and X: "m_PageIndex (B' x) = m_PageIndex (B x)"
      "m_PageCount (B' x) = m_PageCount (B x) + m_PageCount (B c)"
      "m_Next (B' x) = m_Next (B c)" "m_Prev (B' x) = m_Prev (B x)"
      "\<not> (m_Allocated (B' x) \<and> m_PendingFree (B' x))"
    and C: "m_Allocated (B' c)" "m_PendingFree (B' c)" "\<forall>v. m_Next (B' c) = Some v \<longrightarrow> v < M"
    and B': "\<forall>r. r \<noteq> x \<and> r \<noteq> c \<longrightarrow>
               m_PageIndex (B' r) = m_PageIndex (B r) \<and> m_PageCount (B' r) = m_PageCount (B r)
               \<and> m_Next (B' r) = m_Next (B r) \<and> m_Allocated (B' r) = m_Allocated (B r)
               \<and> m_PendingFree (B' r) = m_PendingFree (B r)
               \<and> m_Prev (B' r) = (if m_Next (B c) = Some r then Some x else m_Prev (B r))"
  shows "\<exists>bs'. blocks_ok B' M P bs' \<and> set bs' = set bs - {c} \<and> c \<in> set bs \<and> c \<noteq> x"
proof -
  from ok have s: "seg B (Some 0) 0 bs None P" by (simp add: blocks_ok_def)
  from seg_split [OF s x] obtain as cs where bs: "bs = as @ x # cs"
    and left: "seg B (Some 0) 0 as (Some x) (m_PageIndex (B x))"
    and right: "seg B (Some c) (m_PageIndex (B x) + m_PageCount (B x)) cs None P"
    using c by auto
  from right obtain ds where cs: "cs = c # ds"
    and cidx: "m_PageIndex (B c) = m_PageIndex (B x) + m_PageCount (B x)"
    and rest: "seg B (m_Next (B c)) (m_PageIndex (B x) + m_PageCount (B x) + m_PageCount (B c)) ds None P"
    by (cases cs) auto
  from blocks_ok_distinct [OF ok] bs cs
  have d: "x \<notin> set as" "x \<notin> set ds" "c \<notin> set as" "c \<notin> set ds" "c \<noteq> x" by auto
  note B'r = B' [rule_format]
  have same: "m_PageIndex (B' b) = m_PageIndex (B b) \<and> m_PageCount (B' b) = m_PageCount (B b)
                \<and> m_Next (B' b) = m_Next (B b)" if "b \<in> set as \<or> b \<in> set ds" for b
  proof -
    from that d have "b \<noteq> x \<and> b \<noteq> c" by auto
    from B'r [OF this] show ?thesis by simp
  qed
  have "seg B' (Some 0) 0 as (Some x) (m_PageIndex (B x))
          = seg B (Some 0) 0 as (Some x) (m_PageIndex (B x))"
    by (rule seg_cong) (simp add: same)
  with left have left': "seg B' (Some 0) 0 as (Some x) (m_PageIndex (B x))" by simp
  have "seg B' (m_Next (B c)) (m_PageIndex (B x) + m_PageCount (B x) + m_PageCount (B c)) ds None P
          = seg B (m_Next (B c)) (m_PageIndex (B x) + m_PageCount (B x) + m_PageCount (B c)) ds None P"
    by (rule seg_cong) (simp add: same)
  with rest have rest': "seg B' (m_Next (B c))
          (m_PageIndex (B x) + m_PageCount (B x) + m_PageCount (B c)) ds None P" by simp
  from seg_bounds [OF s x] have posx: "0 < m_PageCount (B x)" by simp
  let ?bs' = "as @ x # ds"
  have "seg B' (Some x) (m_PageIndex (B x)) (x # ds) None P"
    using rest' X posx by (simp add: add.assoc)
  with left' have s': "seg B' (Some 0) 0 ?bs' None P"
    by (auto simp: seg_append)
  have hd0: "hd bs = 0" using ok s by (cases bs) (auto simp: blocks_ok_def)
  have c0: "c \<noteq> 0"
    using hd0 bs cs d by (cases as) auto
  have n0: "m_Next (B c) \<noteq> Some 0"
  proof
    assume "m_Next (B c) = Some 0"
    with rest have "0 \<in> set ds" by (cases ds) auto
    with hd0 bs cs blocks_ok_distinct [OF ok] show False by (cases as) auto
  qed
  have prev0: "m_Prev (B' 0) = None"
  proof (cases "x = 0")
    case True
    with ok X show ?thesis by (simp add: blocks_ok_def)
  next
    case False
    with B'r [of 0] c0 n0 have "m_Prev (B' 0) = m_Prev (B 0)" by simp
    with ok show ?thesis by (simp add: blocks_ok_def)
  qed
  have xM: "x < M" using blocks_ok_bounds(4) [OF ok x] .
  have mem: "r < M \<and> \<not> (m_Allocated (B' r) \<and> m_PendingFree (B' r))
               \<and> (\<forall>p. m_Prev (B' r) = Some p \<longrightarrow> p < M)" if "r \<in> set ?bs'" for r
  proof -
    from that bs cs have rbs: "r \<in> set bs" by auto
    with ok have old: "r < M \<and> \<not> (m_Allocated (B r) \<and> m_PendingFree (B r))
               \<and> (\<forall>p. m_Prev (B r) = Some p \<longrightarrow> p < M)"
      by (simp add: blocks_ok_def)
    show ?thesis
    proof (cases "r = x")
      case True
      with old X show ?thesis by simp
    next
      case False
      from that d have "r \<noteq> c" by auto
      with False B'r [of r] old xM show ?thesis by auto
    qed
  qed
  have cM: "c < M" using ok bs cs by (simp add: blocks_ok_def)
  have pool: "m_Allocated (B' r) \<and> m_PendingFree (B' r) \<and> (\<forall>v. m_Next (B' r) = Some v \<longrightarrow> v < M)"
    if "r < M" "r \<notin> set ?bs'" for r
  proof (cases "r = c")
    case True
    with C show ?thesis by simp
  next
    case False
    with that bs cs have "r \<notin> set bs" "r \<noteq> x" by auto
    with ok that(1) False B'r [of r] show ?thesis by (simp add: blocks_ok_def)
  qed
  have P: "P < 2 ^ 31" using ok by (simp add: blocks_ok_def)
  have nonempty: "?bs' \<noteq> []" by simp
  have mem': "\<forall>b \<in> set ?bs'. b < M \<and> \<not> (m_Allocated (B' b) \<and> m_PendingFree (B' b))
            \<and> (\<forall>p. m_Prev (B' b) = Some p \<longrightarrow> p < M)"
    using mem by blast
  have pool': "\<forall>r < M. r \<notin> set ?bs' \<longrightarrow> m_Allocated (B' r) \<and> m_PendingFree (B' r)
            \<and> (\<forall>v. m_Next (B' r) = Some v \<longrightarrow> v < M)"
    using pool by blast
  have okk: "blocks_ok B' M P ?bs'"
    unfolding blocks_ok_def using s' nonempty prev0 P mem' pool' by blast
  have sets: "set ?bs' = set bs - {c}"
  proof -
    have "set bs = set as \<union> {x, c} \<union> set ds" using bs cs by auto
    with d show ?thesis by auto
  qed
  have cbs: "c \<in> set bs" using bs cs by simp
  show ?thesis
  proof (intro exI conjI)
    show "blocks_ok B' M P ?bs'" by (rule okk)
    show "set ?bs' = set bs - {c}" by (rule sets)
    show "c \<in> set bs" by (rule cbs)
    show "c \<noteq> x" by (rule d(5))
  qed
qed

text \<open>Changes of the flags leave the chain as it is.\<close>

lemma blocks_ok_flags:
  assumes ok: "blocks_ok B M P bs"
    and idx: "\<And>r. m_PageIndex (B' r) = m_PageIndex (B r)"
    and cnt: "\<And>r. m_PageCount (B' r) = m_PageCount (B r)"
    and nxt: "\<And>r. m_Next (B' r) = m_Next (B r)"
    and prv: "\<And>r. m_Prev (B' r) = m_Prev (B r)"
    and inside: "\<And>r. r \<in> set bs \<Longrightarrow> \<not> (m_Allocated (B' r) \<and> m_PendingFree (B' r))"
    and outside: "\<And>r. r \<notin> set bs \<Longrightarrow> m_Allocated (B' r) = m_Allocated (B r)
               \<and> m_PendingFree (B' r) = m_PendingFree (B r)"
  shows "blocks_ok B' M P bs"
proof -
  have "seg B' (Some 0) 0 bs None P = seg B (Some 0) 0 bs None P"
    by (rule seg_cong) (simp add: idx cnt nxt)
  with ok have s: "seg B' (Some 0) 0 bs None P" by (simp add: blocks_ok_def)
  from ok have ne: "bs \<noteq> []" and P: "P < 2 ^ 31" by (simp_all add: blocks_ok_def)
  from ok have p0: "m_Prev (B' 0) = None" by (simp add: blocks_ok_def prv)
  have mem: "\<forall>b \<in> set bs. b < M \<and> \<not> (m_Allocated (B' b) \<and> m_PendingFree (B' b))
            \<and> (\<forall>p. m_Prev (B' b) = Some p \<longrightarrow> p < M)"
  proof
    fix b assume b: "b \<in> set bs"
    with ok have "b < M \<and> (\<forall>p. m_Prev (B b) = Some p \<longrightarrow> p < M)"
      unfolding blocks_ok_def by blast
    with inside [OF b] show "b < M \<and> \<not> (m_Allocated (B' b) \<and> m_PendingFree (B' b))
            \<and> (\<forall>p. m_Prev (B' b) = Some p \<longrightarrow> p < M)"
      by (simp add: prv)
  qed
  have pool: "\<forall>r < M. r \<notin> set bs \<longrightarrow> m_Allocated (B' r) \<and> m_PendingFree (B' r)
            \<and> (\<forall>v. m_Next (B' r) = Some v \<longrightarrow> v < M)"
  proof (intro allI impI)
    fix r assume r: "r < M" "r \<notin> set bs"
    with ok have "m_Allocated (B r) \<and> m_PendingFree (B r) \<and> (\<forall>v. m_Next (B r) = Some v \<longrightarrow> v < M)"
      unfolding blocks_ok_def by blast
    with outside [OF r(2)] show "m_Allocated (B' r) \<and> m_PendingFree (B' r)
            \<and> (\<forall>v. m_Next (B' r) = Some v \<longrightarrow> v < M)"
      by (simp add: nxt)
  qed
  show ?thesis
    unfolding blocks_ok_def using s ne p0 P mem pool by blast
qed

section \<open>Arithmetic of the machine integers\<close>

lemma u31_id: "n < 2 ^ 31 \<Longrightarrow> u31 n = n"
  unfolding u31_def by (rule mod_less)

lemma u32_id: "n < 2 ^ 32 \<Longrightarrow> u32 n = n"
  unfolding u32_def by (rule mod_less)

lemma u64_id: "n < 2 ^ 64 \<Longrightarrow> u64 n = n"
  unfolding u64_def by (rule mod_less)

lemma mod_add_sub:
  fixes n k m :: nat
  assumes "k \<le> n" and "n - k < m"
  shows "(n + m - k) mod m = n - k"
proof -
  from assms(1) have "n + m - k = (n - k) + m" by (rule Nat.add_diff_assoc2 [symmetric])
  then have "(n + m - k) mod m = ((n - k) + m) mod m" by (rule arg_cong)
  also have "\<dots> = (n - k) mod m" by (rule mod_add_self2)
  also have "\<dots> = n - k" using assms(2) by (rule mod_less)
  finally show ?thesis .
qed

lemma u32_sub: "k \<le> n \<Longrightarrow> n < 2 ^ 32 \<Longrightarrow> u32 (n + 2 ^ 32 - k) = n - k"
  unfolding u32_def by (rule mod_add_sub) (erule less_imp_diff_less [rotated] | assumption)+

lemma u64_sub: "k \<le> n \<Longrightarrow> n < 2 ^ 64 \<Longrightarrow> u64 (n + 2 ^ 64 - k) = n - k"
  unfolding u64_def by (rule mod_add_sub) (erule less_imp_diff_less [rotated] | assumption)+

section \<open>AllocFromFreeList keeps the heap well-formed\<close>

lemmas wf_defs = wf_heap_def ptrs_ok_def pending_ok_def vm_ok_def

lemma wf_heap_guard [simp]: "wf_heap (h\<lparr>m_ReentrancyGuard := g\<rparr>) i bs = wf_heap h i bs"
  by (simp add: wf_defs)

lemma wf_heap_access [simp]: "wf_heap (h\<lparr>vm_access := f\<rparr>) i bs = wf_heap h i bs"
  by (simp add: wf_defs)

lemma u32_pred_le: "0 < n \<Longrightarrow> u32 (n + 2 ^ 32 - 1) \<le> n - 1"
proof -
  assume "0 < n"
  then obtain m where n: "n = Suc m" by (cases n) auto
  have "u32 (n + 2 ^ 32 - 1) = (m + 2 ^ 32) mod 2 ^ 32" by (simp add: u32_def n)
  also have "\<dots> = m mod 2 ^ 32" by (rule mod_add_self2)
  also have "\<dots> \<le> m" by (rule mod_less_eq_dividend)
  finally show ?thesis by (simp add: n)
qed

lemma u32_le: "u32 n \<le> n"
  by (simp add: u32_def)

lemma take_off_free_list_wf:
  assumes "wf_heap h i bs" and "0 < m_FreeListSize h"
  shows "wf_heap (take_off_free_list h bi) i bs"
proof -
  let ?h' = "take_off_free_list h bi"
  have fields: "m_Blocks ?h' = m_Blocks h" "m_MaxAllocs ?h' = m_MaxAllocs h"
    "m_HeapPageCount ?h' = m_HeapPageCount h" "m_PendingList ?h' = m_PendingList h"
    "m_PendingListSize ?h' = m_PendingListSize h" "m_BlockLookup ?h' = m_BlockLookup h"
    "m_FirstUnusedBlockInfo ?h' = m_FirstUnusedBlockInfo h" "vm_mapped ?h' = vm_mapped h"
    "m_BaseAddress ?h' = m_BaseAddress h"
    by (simp_all add: take_off_free_list_def Let_def)
  have "m_FreeListSize ?h' = u32 (m_FreeListSize h + 2 ^ 32 - 1)"
    by (simp add: take_off_free_list_def Let_def)
  with u32_pred_le [OF assms(2)] have size: "m_FreeListSize ?h' \<le> m_FreeListSize h - 1"
    by simp
  have entries: "b < m_MaxAllocs h" if "j < m_FreeListSize ?h'" "m_FreeList ?h' j = Some b" for j b
  proof -
    from that(1) size assms(2) have j: "j < m_FreeListSize h" by simp
    from assms(1) have old: "\<And>k c. k < m_FreeListSize h \<Longrightarrow> m_FreeList h k = Some c \<Longrightarrow> c < m_MaxAllocs h"
      by (simp add: wf_defs)
    show ?thesis
    proof (cases "1 < m_FreeListSize h \<and> j = bi")
      case True
      with that(2) have "m_FreeList h (m_FreeListSize h - 1) = Some b"
        by (simp add: take_off_free_list_def Let_def)
      with old [of "m_FreeListSize h - 1" b] assms(2) show ?thesis by simp
    next
      case False
      with that(2) have "m_FreeList h j = Some b"
        by (auto simp: take_off_free_list_def Let_def split: if_splits)
      with old [OF j] show ?thesis by simp
    qed
  qed
  from assms(1) entries show ?thesis
    unfolding wf_heap_def pending_ok_def ptrs_ok_def vm_ok_def fields by blast
qed

lemma carve_tail_effect:
  assumes "carve_tail h b unused req = Inr h'" and "\<not> m_Allocated (m_Blocks h b)"
  shows "\<exists>t. m_FirstUnusedBlockInfo h = Some t
           \<and> m_Allocated (m_Blocks h t) \<and> m_PendingFree (m_Blocks h t) \<and> t \<noteq> b
           \<and> m_FreeListSize h < m_HeapPageCount h
           \<and> h' = h\<lparr>m_FirstUnusedBlockInfo := m_Next (m_Blocks h t),
                    m_Blocks := (m_Blocks h)
                      (t := \<lparr>m_Allocated = False, m_PageCount = u31 unused, m_PendingFree = False,
                             m_PageIndex = u31 (u32 (m_PageIndex (m_Blocks h b)
                                                      + m_PageCount (m_Blocks h b) + 2 ^ 32 - unused)),
                             m_Prev = Some b, m_Next = m_Next (m_Blocks h b)\<rparr>,
                       b := (m_Blocks h b)\<lparr>m_Next := Some t, m_PageCount := u31 (u32 req)\<rparr>),
                    m_FreeList := (m_FreeList h)(m_FreeListSize h := Some t),
                    m_FreeListSize := u32 (m_FreeListSize h + 1)\<rparr>"
proof -
  from assms(1) obtain t where t: "m_FirstUnusedBlockInfo h = Some t"
    by (cases "m_FirstUnusedBlockInfo h") (auto simp: carve_tail_def AllocBlockInfo_def)
  from assms(1) t have flags: "m_Allocated (m_Blocks h t)" "m_PendingFree (m_Blocks h t)"
    by (auto simp: carve_tail_def AllocBlockInfo_def split: if_splits)
  with assms(2) have tb: "t \<noteq> b" by auto
  from assms(1) t flags tb have size: "m_FreeListSize h < m_HeapPageCount h"
    by (auto simp: carve_tail_def AllocBlockInfo_def upd_block_def Let_def split: if_splits
             cong: let_weak_cong)
  from assms(1) t flags tb size show ?thesis
    by (auto simp: carve_tail_def AllocBlockInfo_def upd_block_def Let_def zero_block_def
             cong: let_weak_cong)
qed

lemma carve_tail_wf:
  assumes wf: "wf_heap h i bs" and carve: "carve_tail h b unused req = Inr h'"
    and b: "b \<in> set bs" "\<not> m_Allocated (m_Blocks h b)" "\<not> m_PendingFree (m_Blocks h b)"
    and req: "0 < req" "0 < unused" "req + unused = m_PageCount (m_Blocks h b)"
  shows "\<exists>bs'. wf_heap h' i bs' \<and> b \<in> set bs'
           \<and> \<not> m_PendingFree (m_Blocks h' b) \<and> 0 < m_FreeListSize h'
           \<and> m_PageCount (m_Blocks h' b) = req"
proof -
  let ?B = "m_Blocks h" and ?M = "m_MaxAllocs h" and ?P = "m_HeapPageCount h"
  from wf have ok: "blocks_ok ?B ?M ?P bs" and ptrs: "ptrs_ok h" and pend: "pending_ok h i bs"
    and vm: "vm_ok h"
    by (simp_all add: wf_heap_def)
  from carve_tail_effect [OF carve b(2)] obtain t where
    t: "m_FirstUnusedBlockInfo h = Some t" "m_Allocated (?B t)" "m_PendingFree (?B t)" "t \<noteq> b"
    and size: "m_FreeListSize h < ?P"
    and h': "h' = h\<lparr>m_FirstUnusedBlockInfo := m_Next (?B t),
                    m_Blocks := ?B
                      (t := \<lparr>m_Allocated = False, m_PageCount = u31 unused, m_PendingFree = False,
                             m_PageIndex = u31 (u32 (m_PageIndex (?B b) + m_PageCount (?B b) + 2 ^ 32 - unused)),
                             m_Prev = Some b, m_Next = m_Next (?B b)\<rparr>,
                       b := (?B b)\<lparr>m_Next := Some t, m_PageCount := u31 (u32 req)\<rparr>),
                    m_FreeList := (m_FreeList h)(m_FreeListSize h := Some t),
                    m_FreeListSize := u32 (m_FreeListSize h + 1)\<rparr>"
    by (elim exE conjE) (rule that, assumption+)
  note bnd = blocks_ok_bounds [OF ok b(1)]
  from t(1) ptrs have tM: "t < ?M" by (simp add: ptrs_ok_def)
  have tbs: "t \<notin> set bs"
  proof
    assume "t \<in> set bs"
    with ok have "\<not> (m_Allocated (?B t) \<and> m_PendingFree (?B t))" by (simp add: blocks_ok_def)
    with t show False by simp
  qed
  have a1: "u31 unused = m_PageCount (?B b) - req"
    using req bnd by (simp add: u31_id)
  have a2: "u31 (u32 (m_PageIndex (?B b) + m_PageCount (?B b) + 2 ^ 32 - unused))
              = m_PageIndex (?B b) + req"
  proof -
    have "u32 (m_PageIndex (?B b) + m_PageCount (?B b) + 2 ^ 32 - unused)
            = m_PageIndex (?B b) + m_PageCount (?B b) - unused"
      using req bnd by (intro u32_sub) simp_all
    also have "\<dots> = m_PageIndex (?B b) + req" using req by simp
    finally show ?thesis using req bnd by (simp add: u31_id)
  qed
  have a3: "u31 (u32 req) = req"
    using req bnd by (simp add: u31_id u32_id)
  let ?T = "\<lparr>m_Allocated = False, m_PageCount = m_PageCount (?B b) - req, m_PendingFree = False,
             m_PageIndex = m_PageIndex (?B b) + req, m_Prev = Some b, m_Next = m_Next (?B b)\<rparr>"
  let ?B' = "?B(t := ?T, b := (?B b)\<lparr>m_Next := Some t, m_PageCount := req\<rparr>)"
  have B': "m_Blocks h' = ?B'"
    unfolding h' a1 a2 a3 by simp
  have "\<exists>bs'. blocks_ok ?B' ?M ?P bs' \<and> set bs' = insert t (set bs)"
    by (rule blocks_ok_split [OF ok b(1) tM tbs req(1) _ _ _ _ _ _ _ refl]) (use req in simp_all)
  then obtain bs' where ok': "blocks_ok ?B' ?M ?P bs'" and set': "set bs' = insert t (set bs)"
    by blast
  have fields: "m_MaxAllocs h' = ?M" "m_HeapPageCount h' = ?P" "m_PendingList h' = m_PendingList h"
    "m_PendingListSize h' = m_PendingListSize h" "m_BlockLookup h' = m_BlockLookup h"
    "vm_mapped h' = vm_mapped h" "m_BaseAddress h' = m_BaseAddress h"
    by (simp_all add: h')
  have ptrs': "ptrs_ok h'"
  proof -
    have "u < ?M" if "m_FirstUnusedBlockInfo h' = Some u" for u
    proof -
      from that have "m_Next (?B t) = Some u" by (simp add: h')
      with ok tM tbs show ?thesis unfolding blocks_ok_def by blast
    qed
    moreover have "c < ?M" if "j < m_FreeListSize h'" "m_FreeList h' j = Some c" for j c
    proof (cases "j = m_FreeListSize h")
      case True
      with that(2) tM show ?thesis by (simp add: h')
    next
      case False
      from that(1) have "j < u32 (m_FreeListSize h + 1)" by (simp add: h')
      with u32_le [of "m_FreeListSize h + 1"] False have "j < m_FreeListSize h" by simp
      moreover from that(2) False have "m_FreeList h j = Some c" by (simp add: h')
      ultimately show ?thesis using ptrs unfolding ptrs_ok_def by blast
    qed
    moreover have "c < ?M" if "m_BlockLookup h' p = Some c" for p c
      using that ptrs unfolding ptrs_ok_def fields by blast
    ultimately show ?thesis unfolding ptrs_ok_def fields by blast
  qed
  have pend': "pending_ok h' i bs'"
  proof -
    have "\<exists>c. m_PendingList h' j = Some c \<and> c \<in> set bs'
                \<and> \<not> m_Allocated (m_Blocks h' c) \<and> m_PendingFree (m_Blocks h' c)"
      if "i \<le> j \<and> j < m_PendingListSize h'" for j
    proof -
      from that pend obtain c where c: "m_PendingList h j = Some c" "c \<in> set bs"
        "\<not> m_Allocated (?B c)" "m_PendingFree (?B c)"
        unfolding pending_ok_def fields by blast
      from c b tbs have "c \<noteq> b" "c \<noteq> t" by auto
      with c set' show ?thesis by (simp add: fields B')
    qed
    moreover have "m_PendingList h' j \<noteq> m_PendingList h' k"
      if "i \<le> j \<and> j < k \<and> k < m_PendingListSize h'" for j k
      using that pend unfolding pending_ok_def fields by blast
    ultimately show ?thesis unfolding pending_ok_def by blast
  qed
  have vm': "vm_ok h'" using vm by (simp add: vm_ok_def fields)
  have wf': "wf_heap h' i bs'"
    unfolding wf_heap_def using ok' ptrs' pend' vm' by (simp add: fields B')
  have "0 < m_FreeListSize h'"
  proof -
    from size bnd have "m_FreeListSize h + 1 < 2 ^ 32" by simp
    then show ?thesis by (simp add: h' u32_id)
  qed
  moreover have "m_PageCount (m_Blocks h' b) = req" "\<not> m_PendingFree (m_Blocks h' b)"
    using b by (simp_all add: B')
  moreover have "b \<in> set bs'" using set' b by simp
  ultimately show ?thesis using wf' by blast
qed

lemma mark_allocated_effect:
  assumes "mark_allocated h b = Inr (h', p)"
  shows "h' = h\<lparr>m_Blocks := (m_Blocks h)(b := (m_Blocks h b)\<lparr>m_Allocated := True\<rparr>),
                 m_BlockLookup := (m_BlockLookup h)(m_PageIndex (m_Blocks h b) := Some b)\<rparr>
       \<and> p = u64 (m_BaseAddress h + m_PageIndex (m_Blocks h b) * kPageSize)"
  using assms
  by (auto simp: mark_allocated_def upd_block_def Let_def split: if_splits option.splits sum.splits
           cong: let_weak_cong)

lemma mark_allocated_wf:
  assumes wf: "wf_heap h i bs" and mark: "mark_allocated h b = Inr (h', p)"
    and b: "b \<in> set bs" "\<not> m_PendingFree (m_Blocks h b)"
  shows "wf_heap h' i bs"
proof -
  let ?B = "m_Blocks h" and ?M = "m_MaxAllocs h" and ?P = "m_HeapPageCount h"
  from wf have ok: "blocks_ok ?B ?M ?P bs" and ptrs: "ptrs_ok h" and pend: "pending_ok h i bs"
    and vm: "vm_ok h"
    by (simp_all add: wf_heap_def)
  let ?B' = "?B(b := (?B b)\<lparr>m_Allocated := True\<rparr>)"
  from mark_allocated_effect [OF mark]
  have h': "h' = h\<lparr>m_Blocks := ?B', m_BlockLookup := (m_BlockLookup h)(m_PageIndex (?B b) := Some b)\<rparr>"
    by simp
  have fields: "m_MaxAllocs h' = ?M" "m_HeapPageCount h' = ?P" "m_PendingList h' = m_PendingList h"
    "m_PendingListSize h' = m_PendingListSize h" "m_FreeList h' = m_FreeList h"
    "m_FreeListSize h' = m_FreeListSize h" "m_FirstUnusedBlockInfo h' = m_FirstUnusedBlockInfo h"
    "vm_mapped h' = vm_mapped h" "m_BaseAddress h' = m_BaseAddress h" "m_Blocks h' = ?B'"
    by (simp_all add: h')
  have ok': "blocks_ok ?B' ?M ?P bs"
  proof (rule blocks_ok_flags [OF ok])
    fix r assume "r \<in> set bs"
    with ok have "\<not> (m_Allocated (?B r) \<and> m_PendingFree (?B r))" by (simp add: blocks_ok_def)
    with b(2) show "\<not> (m_Allocated (?B' r) \<and> m_PendingFree (?B' r))" by simp
  next
    fix r assume "r \<notin> set bs"
    with b(1) have "r \<noteq> b" by auto
    then show "m_Allocated (?B' r) = m_Allocated (?B r) \<and> m_PendingFree (?B' r) = m_PendingFree (?B r)"
      by simp
  qed simp_all
  have bM: "b < ?M" using blocks_ok_bounds(4) [OF ok b(1)] .
  have ptrs': "ptrs_ok h'"
  proof -
    have "c < ?M" if "m_BlockLookup h' q = Some c" for q c
    proof (cases "q = m_PageIndex (?B b)")
      case True
      with that bM show ?thesis by (simp add: h')
    next
      case False
      with that have "m_BlockLookup h q = Some c" by (simp add: h')
      with ptrs show ?thesis unfolding ptrs_ok_def by blast
    qed
    with ptrs show ?thesis unfolding ptrs_ok_def fields by blast
  qed
  have pend': "pending_ok h' i bs"
  proof -
    have "\<exists>c. m_PendingList h' j = Some c \<and> c \<in> set bs
                \<and> \<not> m_Allocated (m_Blocks h' c) \<and> m_PendingFree (m_Blocks h' c)"
      if "i \<le> j \<and> j < m_PendingListSize h'" for j
    proof -
      from that pend obtain c where c: "m_PendingList h j = Some c" "c \<in> set bs"
        "\<not> m_Allocated (?B c)" "m_PendingFree (?B c)"
        unfolding pending_ok_def fields by blast
      from c b have "c \<noteq> b" by auto
      with c show ?thesis by (simp add: fields)
    qed
    moreover have "m_PendingList h' j \<noteq> m_PendingList h' k"
      if "i \<le> j \<and> j < k \<and> k < m_PendingListSize h'" for j k
      using that pend unfolding pending_ok_def fields by blast
    ultimately show ?thesis unfolding pending_ok_def by blast
  qed
  have vm': "vm_ok h'" using vm by (simp add: vm_ok_def fields)
  show ?thesis
    unfolding wf_heap_def using ok' ptrs' pend' vm' by (simp add: fields)
qed

text \<open>The two ways in which \<open>AllocFromFreeList\<close> returns.\<close>

lemma AllocFromFreeList_cases:
  assumes "AllocFromFreeList heap page_req = Inr (heap', ptr)"
  shows "(heap' = heap \<and> ptr = 0
           \<and> (\<exists>bs bi. scan_free_list heap page_req 0 (m_FreeListSize heap) (None, 2 ^ 32 - 1, 0)
                        = Inr (None, bs, bi)))
       \<or> (\<exists>b bs bi h2.
             scan_free_list heap page_req 0 (m_FreeListSize heap) (None, 2 ^ 32 - 1, 0)
               = Inr (Some b, bs, bi)
             \<and> (if 0 < u32 (u64 (bs + 2 ^ 64 - page_req))
                 then carve_tail (take_off_free_list heap bi) b (u32 (u64 (bs + 2 ^ 64 - page_req))) page_req
                 else Inr (take_off_free_list heap bi)) = Inr h2
             \<and> mark_allocated h2 b = Inr (heap', ptr))"
proof -
  obtain bb bs bi where
    scan: "scan_free_list heap page_req 0 (m_FreeListSize heap) (None, 2 ^ 32 - 1, 0) = Inr (bb, bs, bi)"
  proof (cases "scan_free_list heap page_req 0 (m_FreeListSize heap) (None, 2 ^ 32 - 1, 0)")
    case (Inl e)
    with assms(1) show ?thesis by (simp add: AllocFromFreeList_def)
  next
    case (Inr x)
    with that show ?thesis by (cases x) auto
  qed
  show ?thesis
  proof (cases bb)
    case None
    with assms scan show ?thesis by (simp add: AllocFromFreeList_def)
  next
    case (Some b)
    define unused where "unused = u32 (u64 (bs + 2 ^ 64 - page_req))"
    let ?h1 = "take_off_free_list heap bi"
    have "(case (if 0 < unused then carve_tail ?h1 b unused page_req else Inr ?h1) of
             Inl e \<Rightarrow> Inl e
           | Inr heap2 \<Rightarrow> mark_allocated heap2 b) = Inr (heap', ptr)"
      using assms(1) unfolding AllocFromFreeList_def scan Some unused_def
      by (simp add: Let_def split: if_splits)
    then obtain h2 where
      "(if 0 < unused then carve_tail ?h1 b unused page_req else Inr ?h1) = Inr h2"
      "mark_allocated h2 b = Inr (heap', ptr)"
      by (cases "if 0 < unused then carve_tail ?h1 b unused page_req else Inr ?h1") simp_all
    with scan Some show ?thesis unfolding unused_def by blast
  qed
qed

lemma AllocFromFreeList_wf:
  assumes wf: "wf_heap h i bs" and al: "AllocFromFreeList h req = Inr (h', p)" and req: "0 < req"
  shows "\<exists>bs'. wf_heap h' i bs'"
proof -
  from AllocFromFreeList_cases [OF al]
  consider (none) "h' = h"
    | (some) b bsz bi h2 where
        "scan_free_list h req 0 (m_FreeListSize h) (None, 2 ^ 32 - 1, 0) = Inr (Some b, bsz, bi)"
        "(if 0 < u32 (u64 (bsz + 2 ^ 64 - req))
          then carve_tail (take_off_free_list h bi) b (u32 (u64 (bsz + 2 ^ 64 - req))) req
          else Inr (take_off_free_list h bi)) = Inr h2"
        "mark_allocated h2 b = Inr (h', p)"
    by blast
  then show ?thesis
  proof cases
    case none
    with wf show ?thesis by blast
  next
    case some
    let ?B = "m_Blocks h" and ?M = "m_MaxAllocs h" and ?P = "m_HeapPageCount h"
    from wf have ok: "blocks_ok ?B ?M ?P bs" and ptrs: "ptrs_ok h"
      by (simp_all add: wf_heap_def)
    have "scan_inv h req 0 (None, 2 ^ 32 - 1, 0)" by (simp add: scan_inv_def)
    from scan_free_list_inv [OF some(1) _ this]
    have inv: "scan_inv h req (m_FreeListSize h) (Some b, bsz, bi)" by simp
    then have b: "bi < m_FreeListSize h" "m_FreeList h bi = Some b" "m_PageCount (?B b) = bsz"
      "req \<le> bsz" "\<not> m_Allocated (?B b)" "\<not> m_PendingFree (?B b)"
      by (auto simp: scan_inv_def)
    from b(1,2) ptrs have bM: "b < ?M" unfolding ptrs_ok_def by blast
    from blocks_ok_member [OF ok bM] b have bbs: "b \<in> set bs" by blast
    note bnd = blocks_ok_bounds [OF ok bbs]
    let ?h1 = "take_off_free_list h bi"
    have wf1: "wf_heap ?h1 i bs"
      using b(1) by (intro take_off_free_list_wf [OF wf]) simp
    have B1: "m_Blocks ?h1 = ?B" by (simp add: take_off_free_list_def Let_def)
    have bsz: "bsz < 2 ^ 31" using bnd b(3) by simp
    have unused: "u32 (u64 (bsz + 2 ^ 64 - req)) = bsz - req"
    proof -
      have p31: "(2 :: nat) ^ 31 < 2 ^ 32" "(2 :: nat) ^ 31 < 2 ^ 64" by simp_all
      have "bsz < (2 :: nat) ^ 64" by (rule less_trans [OF bsz p31(2)])
      with b(4) have "u64 (bsz + 2 ^ 64 - req) = bsz - req" by (rule u64_sub)
      moreover have "bsz - req < 2 ^ 32"
        by (rule less_imp_diff_less [OF less_trans [OF bsz p31(1)]])
      ultimately show ?thesis by (simp only: u32_id)
    qed
    have "\<exists>bs'. wf_heap h2 i bs' \<and> b \<in> set bs' \<and> \<not> m_PendingFree (m_Blocks h2 b)"
    proof (cases "0 < bsz - req")
      case True
      with some(2) unused have carve: "carve_tail ?h1 b (bsz - req) req = Inr h2" by simp
      have "\<exists>bs'. wf_heap h2 i bs' \<and> b \<in> set bs'
           \<and> \<not> m_PendingFree (m_Blocks h2 b) \<and> 0 < m_FreeListSize h2
           \<and> m_PageCount (m_Blocks h2 b) = req"
        by (rule carve_tail_wf [OF wf1 carve]) (use b bbs req True in \<open>simp_all add: B1\<close>)
      then show ?thesis by blast
    next
      case False
      with some(2) unused have "h2 = ?h1" by simp
      with wf1 bbs b B1 show ?thesis by auto
    qed
    then obtain bs' where "wf_heap h2 i bs'" "b \<in> set bs'" "\<not> m_PendingFree (m_Blocks h2 b)"
      by blast
    from mark_allocated_wf [OF this(1) some(3) this(2,3)] show ?thesis by blast
  qed
qed

section \<open>The flush keeps the heap well-formed\<close>

lemma merge_left_effect:
  assumes "m_Prev (m_Blocks h block) = Some p"
    and "\<not> m_Allocated (m_Blocks h p)" "\<not> m_PendingFree (m_Blocks h p)"
    and "m_PageIndex (m_Blocks h p) + m_PageCount (m_Blocks h p) = m_PageIndex (m_Blocks h block)"
    and "p \<noteq> block" "m_Next (m_Blocks h block) \<noteq> Some p" "m_Next (m_Blocks h block) \<noteq> Some block"
  shows "merge_left h block =
           (h\<lparr>m_Blocks := merged (m_Blocks h) p block (m_FirstUnusedBlockInfo h),
              m_FirstUnusedBlockInfo := Some block\<rparr>, p, True)"
proof (cases "m_Next (m_Blocks h block)")
  case None
  with assms show ?thesis
    by (simp add: merge_left_def merged_def FreeBlockInfo_def upd_block_def Let_def
             cong: let_weak_cong)
next
  case (Some n)
  with assms have "n \<noteq> p" "n \<noteq> block" by auto
  with Some assms show ?thesis
    by (simp add: merge_left_def merged_def FreeBlockInfo_def upd_block_def Let_def
             cong: let_weak_cong)
qed

lemma merge_left_none:
  assumes "m_Prev (m_Blocks h block) = None
         \<or> (\<exists>p. m_Prev (m_Blocks h block) = Some p
               \<and> \<not> (\<not> m_Allocated (m_Blocks h p) \<and> \<not> m_PendingFree (m_Blocks h p)
                    \<and> m_PageIndex (m_Blocks h p) + m_PageCount (m_Blocks h p)
                        = m_PageIndex (m_Blocks h block)))"
  shows "merge_left h block = (h, block, False)"
  using assms by (auto simp: merge_left_def)

lemma remove_from_free_list_effect:
  assumes "remove_from_free_list h n fi fcount = Inr h'" and "fcount \<le> m_FreeListSize h"
    and "\<forall>j < m_FreeListSize h. \<forall>b. m_FreeList h j = Some b \<longrightarrow> b < M"
  shows "(\<exists>fl sz. h' = h\<lparr>m_FreeList := fl, m_FreeListSize := sz\<rparr>)
       \<and> (\<forall>j < m_FreeListSize h'. \<forall>b. m_FreeList h' j = Some b \<longrightarrow> b < M)"
  using assms
proof (induction h n fi fcount rule: remove_from_free_list.induct)
  case (1 heap next_block fi fcount)
  show ?case
  proof (cases "fi < fcount")
    case False
    with "1.prems" have "h' = heap" by (simp add: remove_from_free_list.simps)
    moreover have "heap = heap\<lparr>m_FreeList := m_FreeList heap, m_FreeListSize := m_FreeListSize heap\<rparr>"
      by simp
    ultimately show ?thesis using "1.prems"(3) by blast
  next
    case True
    from "1.prems"(1) True have inr: "fi < m_HeapPageCount heap"
      by (subst (asm) remove_from_free_list.simps) (auto split: if_splits)
    show ?thesis
    proof (cases "m_FreeList heap fi = Some next_block")
      case hit: True
      let ?last = "u32 (m_FreeListSize heap + 2 ^ 32 - 1)"
      from "1.prems"(1) True inr hit
      have h': "h' = heap\<lparr>m_FreeList := (m_FreeList heap)(fi := m_FreeList heap ?last),
                          m_FreeListSize := ?last\<rparr>"
        by (subst (asm) remove_from_free_list.simps) (auto split: if_splits)
      from True "1.prems"(2) have pos: "0 < m_FreeListSize heap" by simp
      note le = u32_pred_le [OF pos]
      have "b < M" if "j < m_FreeListSize h'" "m_FreeList h' j = Some b" for j b
      proof (cases "j = fi")
        case True
        with that(2) have "m_FreeList heap ?last = Some b" by (simp add: h')
        moreover from le pos have "?last < m_FreeListSize heap" by simp
        ultimately show ?thesis using "1.prems"(3) by blast
      next
        case False
        with that(2) have "m_FreeList heap j = Some b" by (simp add: h')
        moreover from that(1) le pos have "j < m_FreeListSize heap" by (simp add: h')
        ultimately show ?thesis using "1.prems"(3) by blast
      qed
      with h' show ?thesis by blast
    next
      case miss: False
      from "1.prems"(1) True inr miss
      have rec: "remove_from_free_list heap next_block (fi + 1) fcount = Inr h'"
        by (subst (asm) remove_from_free_list.simps) (auto split: if_splits)
      show ?thesis
        by (rule "1.IH" [OF True _ miss rec "1.prems"(2,3)]) (use inr in simp)
    qed
  qed
qed

lemma merge_right_effect:
  assumes mr: "merge_right h block = Inr h'"
    and nx: "m_Next (m_Blocks h block) = Some n"
    and flags: "\<not> m_Allocated (m_Blocks h n)" "\<not> m_PendingFree (m_Blocks h n)"
    and adj: "m_PageIndex (m_Blocks h n) = m_PageIndex (m_Blocks h block) + m_PageCount (m_Blocks h block)"
    and ne: "n \<noteq> block" "m_Next (m_Blocks h n) \<noteq> Some block" "m_Next (m_Blocks h n) \<noteq> Some n"
    and fl: "\<forall>j < m_FreeListSize h. \<forall>b. m_FreeList h j = Some b \<longrightarrow> b < M"
  shows "(\<exists>fl sz. h' = h\<lparr>m_Blocks := merged (m_Blocks h) block n (m_FirstUnusedBlockInfo h),
                          m_FirstUnusedBlockInfo := Some n,
                          m_FreeList := fl, m_FreeListSize := sz\<rparr>)
       \<and> (\<forall>j < m_FreeListSize h'. \<forall>b. m_FreeList h' j = Some b \<longrightarrow> b < M)"
proof -
  let ?B = "m_Blocks h"
  let ?h3 = "h\<lparr>m_Blocks :=
                 (case m_Next (?B n) of None \<Rightarrow> ?B | Some m \<Rightarrow> ?B(m := (?B m)\<lparr>m_Prev := Some block\<rparr>))
                 (block := (?B block)\<lparr>m_Next := m_Next (?B n),
                     m_PageCount := u31 (m_PageCount (?B block) + m_PageCount (?B n))\<rparr>)\<rparr>"
  have "\<exists>h4. remove_from_free_list ?h3 n 0 (m_FreeListSize ?h3) = Inr h4
              \<and> h' = FreeBlockInfo h4 n"
  proof (cases "m_Next (?B n)")
    case None
    with mr nx flags adj ne show ?thesis
      by (auto simp: merge_right_def upd_block_def Let_def split: sum.splits cong: let_weak_cong)
  next
    case (Some m)
    with ne have "m \<noteq> block" "m \<noteq> n" by auto
    with Some mr nx flags adj ne show ?thesis
      by (auto simp: merge_right_def upd_block_def Let_def split: sum.splits cong: let_weak_cong)
  qed
  then obtain h4 where rm: "remove_from_free_list ?h3 n 0 (m_FreeListSize ?h3) = Inr h4"
    and h': "h' = FreeBlockInfo h4 n" by blast
  have "(\<exists>fl sz. h4 = ?h3\<lparr>m_FreeList := fl, m_FreeListSize := sz\<rparr>)
       \<and> (\<forall>j < m_FreeListSize h4. \<forall>b. m_FreeList h4 j = Some b \<longrightarrow> b < M)"
    by (rule remove_from_free_list_effect [OF rm]) (use fl in simp_all)
  then obtain fl' sz where h4: "h4 = ?h3\<lparr>m_FreeList := fl', m_FreeListSize := sz\<rparr>"
    and fl4: "\<forall>j < m_FreeListSize h4. \<forall>b. m_FreeList h4 j = Some b \<longrightarrow> b < M"
    by blast
  have "h' = h\<lparr>m_Blocks := merged ?B block n (m_FirstUnusedBlockInfo h),
                m_FirstUnusedBlockInfo := Some n,
                m_FreeList := fl', m_FreeListSize := sz\<rparr>"
  proof (cases "m_Next (?B n)")
    case None
    with ne show ?thesis
      by (simp add: h' h4 FreeBlockInfo_def upd_block_def merged_def)
  next
    case (Some m)
    with ne have "m \<noteq> block" "m \<noteq> n" by auto
    with Some ne show ?thesis
      by (simp add: h' h4 FreeBlockInfo_def upd_block_def merged_def)
  qed
  moreover have "\<forall>j < m_FreeListSize h'. \<forall>b. m_FreeList h' j = Some b \<longrightarrow> b < M"
    using fl4 by (simp add: h' FreeBlockInfo_def upd_block_def)
  ultimately show ?thesis by blast
qed

lemma merge_right_none:
  assumes "m_Next (m_Blocks h block) = None
         \<or> (\<exists>n. m_Next (m_Blocks h block) = Some n
               \<and> \<not> (\<not> m_Allocated (m_Blocks h n) \<and> \<not> m_PendingFree (m_Blocks h n)
                    \<and> m_PageIndex (m_Blocks h n)
                        = m_PageIndex (m_Blocks h block) + m_PageCount (m_Blocks h block)))"
  shows "merge_right h block = Inr h"
  using assms by (auto simp: merge_right_def)

text \<open>The successor of a chain block, as the chain sees it.\<close>

lemma chain_next:
  assumes ok: "blocks_ok B M P bs" and x: "x \<in> set bs" and c: "m_Next (B x) = Some c"
  shows "c \<in> set bs" "c \<noteq> x" "m_PageIndex (B c) = m_PageIndex (B x) + m_PageCount (B x)"
    "m_Next (B c) \<noteq> Some x" "m_Next (B c) \<noteq> Some c"
    "m_PageCount (B x) + m_PageCount (B c) < 2 ^ 31"
proof -
  from ok have s: "seg B (Some 0) 0 bs None P" by (simp add: blocks_ok_def)
  from seg_split [OF s x] obtain as cs where bs: "bs = as @ x # cs"
    and right: "seg B (Some c) (m_PageIndex (B x) + m_PageCount (B x)) cs None P"
    using c by auto
  from right obtain ds where cs: "cs = c # ds"
    and cidx: "m_PageIndex (B c) = m_PageIndex (B x) + m_PageCount (B x)"
    and rest: "seg B (m_Next (B c)) (m_PageIndex (B x) + m_PageCount (B x) + m_PageCount (B c)) ds None P"
    by (cases cs) auto
  from blocks_ok_distinct [OF ok] have d: "distinct (as @ x # c # ds)" by (simp add: bs cs)
  show "c \<in> set bs" by (simp add: bs cs)
  from d show "c \<noteq> x" by auto
  show "m_PageIndex (B c) = m_PageIndex (B x) + m_PageCount (B x)" by (rule cidx)
  have nx: "r \<in> set ds" if "m_Next (B c) = Some r" for r
    using rest that by (cases ds) auto
  show "m_Next (B c) \<noteq> Some x"
  proof
    assume "m_Next (B c) = Some x"
    from nx [OF this] d show False by auto
  qed
  show "m_Next (B c) \<noteq> Some c"
  proof
    assume "m_Next (B c) = Some c"
    from nx [OF this] d show False by auto
  qed
  from seg_le [OF rest] have "m_PageCount (B x) + m_PageCount (B c) \<le> P" by simp
  moreover from ok have "P < 2 ^ 31" by (simp add: blocks_ok_def)
  ultimately show "m_PageCount (B x) + m_PageCount (B c) < 2 ^ 31" by simp
qed

lemma merged_flags:
  "r \<noteq> c \<Longrightarrow> m_Allocated (merged B x c fu r) = m_Allocated (B r)
              \<and> m_PendingFree (merged B x c fu r) = m_PendingFree (B r)"
  by (simp add: merged_def split: option.splits)

lemma merged_ok:
  assumes ok: "blocks_ok B M P bs" and x: "x \<in> set bs" and c: "m_Next (B x) = Some c"
    and fu: "\<forall>v. fu = Some v \<longrightarrow> v < M"
  shows "\<exists>bs'. blocks_ok (merged B x c fu) M P bs' \<and> set bs' = set bs - {c} \<and> c \<in> set bs \<and> c \<noteq> x"
proof (rule blocks_ok_merge [OF ok x c])
  note cn = chain_next [OF ok x c]
  let ?B' = "merged B x c fu"
  from ok x have xf: "\<not> (m_Allocated (B x) \<and> m_PendingFree (B x))" by (simp add: blocks_ok_def)
  have X: "?B' x = (B x)\<lparr>m_Next := m_Next (B c),
                   m_PageCount := u31 (m_PageCount (B x) + m_PageCount (B c))\<rparr>"
    using cn(2,4) by (auto simp: merged_def split: option.splits)
  show "m_PageIndex (?B' x) = m_PageIndex (B x)" by (simp add: X)
  show "m_PageCount (?B' x) = m_PageCount (B x) + m_PageCount (B c)"
    using cn(6) by (simp add: X u31_id)
  show "m_Next (?B' x) = m_Next (B c)" by (simp add: X)
  show "m_Prev (?B' x) = m_Prev (B x)" by (simp add: X)
  show "\<not> (m_Allocated (?B' x) \<and> m_PendingFree (?B' x))" using xf by (simp add: X)
  have C: "?B' c = (B c)\<lparr>m_Allocated := True, m_PendingFree := True, m_Prev := None, m_Next := fu\<rparr>"
    by (simp add: merged_def)
  show "m_Allocated (?B' c)" "m_PendingFree (?B' c)" by (simp_all add: C)
  show "\<forall>v. m_Next (?B' c) = Some v \<longrightarrow> v < M" using fu by (simp add: C)
  show "\<forall>r. r \<noteq> x \<and> r \<noteq> c \<longrightarrow>
          m_PageIndex (?B' r) = m_PageIndex (B r) \<and> m_PageCount (?B' r) = m_PageCount (B r)
          \<and> m_Next (?B' r) = m_Next (B r) \<and> m_Allocated (?B' r) = m_Allocated (B r)
          \<and> m_PendingFree (?B' r) = m_PendingFree (B r)
          \<and> m_Prev (?B' r) = (if m_Next (B c) = Some r then Some x else m_Prev (B r))"
    by (auto simp: merged_def split: option.splits)
qed

lemma merged_wf:
  assumes wf: "wf_heap h i bs" and x: "x \<in> set bs" and c: "m_Next (m_Blocks h x) = Some c"
    and ii: "i \<le> i'"
    and cp: "\<forall>j. i' \<le> j \<and> j < m_PendingListSize h \<longrightarrow> m_PendingList h j \<noteq> Some c"
    and B': "m_Blocks h' = merged (m_Blocks h) x c (m_FirstUnusedBlockInfo h)"
    and fu: "m_FirstUnusedBlockInfo h' = Some c"
    and same: "m_MaxAllocs h' = m_MaxAllocs h" "m_HeapPageCount h' = m_HeapPageCount h"
      "m_PendingList h' = m_PendingList h" "m_PendingListSize h' = m_PendingListSize h"
      "m_BlockLookup h' = m_BlockLookup h" "vm_mapped h' = vm_mapped h"
      "m_BaseAddress h' = m_BaseAddress h"
    and fl: "\<forall>j < m_FreeListSize h'. \<forall>b. m_FreeList h' j = Some b \<longrightarrow> b < m_MaxAllocs h"
  shows "\<exists>bs'. wf_heap h' i' bs' \<and> set bs' = set bs - {c} \<and> c \<in> set bs \<and> c \<noteq> x"
proof -
  let ?B = "m_Blocks h" and ?M = "m_MaxAllocs h" and ?P = "m_HeapPageCount h"
  from wf have ok: "blocks_ok ?B ?M ?P bs" and ptrs: "ptrs_ok h" and pend: "pending_ok h i bs"
    and vm: "vm_ok h"
    by (simp_all add: wf_heap_def)
  from ptrs have "\<forall>v. m_FirstUnusedBlockInfo h = Some v \<longrightarrow> v < ?M" by (simp add: ptrs_ok_def)
  from merged_ok [OF ok x c this] obtain bs' where
    ok': "blocks_ok (merged ?B x c (m_FirstUnusedBlockInfo h)) ?M ?P bs'"
    and set': "set bs' = set bs - {c}" and cin: "c \<in> set bs" and cx: "c \<noteq> x"
    by (elim exE conjE) (rule that, assumption+)
  from ok cin have cM: "c < ?M" by (simp add: blocks_ok_def)
  have p': "ptrs_ok h'"
    using ptrs fl cM by (simp add: ptrs_ok_def fu same)
  have pend': "pending_ok h' i' bs'"
    unfolding pending_ok_def
  proof (intro conjI allI impI)
    fix j assume j: "i' \<le> j \<and> j < m_PendingListSize h'"
    with ii have "i \<le> j \<and> j < m_PendingListSize h" by (simp add: same)
    with pend obtain b where b: "m_PendingList h j = Some b" "b \<in> set bs"
      "\<not> m_Allocated (?B b)" "m_PendingFree (?B b)"
      unfolding pending_ok_def by blast
    from cp j b(1) have bc: "b \<noteq> c" by (auto simp: same)
    from merged_flags [OF bc] b(3,4)
    have "\<not> m_Allocated (m_Blocks h' b) \<and> m_PendingFree (m_Blocks h' b)" by (simp add: B')
    moreover from b(2) bc have "b \<in> set bs'" by (simp add: set')
    ultimately show "\<exists>b. m_PendingList h' j = Some b \<and> b \<in> set bs'
                \<and> \<not> m_Allocated (m_Blocks h' b) \<and> m_PendingFree (m_Blocks h' b)"
      using b(1) by (simp add: same)
  next
    fix j k assume "i' \<le> j \<and> j < k \<and> k < m_PendingListSize h'"
    with ii have "i \<le> j \<and> j < k \<and> k < m_PendingListSize h" by (simp add: same)
    with pend show "m_PendingList h' j \<noteq> m_PendingList h' k"
      unfolding pending_ok_def same by blast
  qed
  have vm': "vm_ok h'" using vm by (simp add: vm_ok_def same)
  have "wf_heap h' i' bs'"
    using ok' p' pend' vm' by (simp add: wf_heap_def B' same)
  with set' cin cx show ?thesis by blast
qed

lemma wf_heap_mono: "wf_heap h i bs \<Longrightarrow> i \<le> i' \<Longrightarrow> wf_heap h i' bs"
  by (auto simp: wf_heap_def pending_ok_def)

lemma merge_left_wf:
  assumes wf: "wf_heap h i bs" and blk: "block0 \<in> set bs"
    and flags: "\<not> m_Allocated (m_Blocks h block0)" "m_PendingFree (m_Blocks h block0)"
    and cp: "\<forall>j. Suc i \<le> j \<and> j < m_PendingListSize h \<longrightarrow> m_PendingList h j \<noteq> Some block0"
    and ml: "merge_left h block0 = (h1, block, removed)"
  shows "\<exists>bs1. wf_heap h1 (Suc i) bs1 \<and> block \<in> set bs1
           \<and> \<not> m_Allocated (m_Blocks h1 block)
           \<and> m_PendingFree (m_Blocks h1 block) = (\<not> removed)
           \<and> (\<not> removed \<longrightarrow> block = block0)
           \<and> m_PendingList h1 = m_PendingList h \<and> m_PendingListSize h1 = m_PendingListSize h
           \<and> m_HeapPageCount h1 = m_HeapPageCount h"
proof -
  let ?B = "m_Blocks h" and ?M = "m_MaxAllocs h" and ?P = "m_HeapPageCount h"
  from wf have ok: "blocks_ok ?B ?M ?P bs" by (simp add: wf_heap_def)
  let ?cond = "\<exists>p. m_Prev (?B block0) = Some p
                 \<and> \<not> m_Allocated (?B p) \<and> \<not> m_PendingFree (?B p)
                 \<and> m_PageIndex (?B p) + m_PageCount (?B p) = m_PageIndex (?B block0)"
  show ?thesis
  proof (cases ?cond)
    case False
    then have "m_Prev (?B block0) = None
         \<or> (\<exists>p. m_Prev (?B block0) = Some p
               \<and> \<not> (\<not> m_Allocated (?B p) \<and> \<not> m_PendingFree (?B p)
                    \<and> m_PageIndex (?B p) + m_PageCount (?B p) = m_PageIndex (?B block0)))"
      by (cases "m_Prev (?B block0)") auto
    from merge_left_none [OF this] ml
    have eq: "h1 = h" "block = block0" "removed = False" by simp_all
    from wf_heap_mono [OF wf, of "Suc i"] have "wf_heap h (Suc i) bs" by simp
    with blk flags show ?thesis unfolding eq by blast
  next
    case True
    then obtain p where p: "m_Prev (?B block0) = Some p"
      "\<not> m_Allocated (?B p)" "\<not> m_PendingFree (?B p)"
      "m_PageIndex (?B p) + m_PageCount (?B p) = m_PageIndex (?B block0)"
      by blast
    from ok blk p(1) have pM: "p < ?M" by (simp add: blocks_ok_def)
    from p(2) have "\<not> (m_Allocated (?B p) \<and> m_PendingFree (?B p))" by simp
    from blocks_ok_member [OF ok pM this] have pin: "p \<in> set bs" .
    from ok have s: "seg ?B (Some 0) 0 bs None ?P" by (simp add: blocks_ok_def)
    from seg_pred [OF s pin blk p(4)] obtain as cs where bs: "bs = as @ p # block0 # cs"
      by blast
    from s have nx: "m_Next (?B p) = Some block0"
      by (auto simp: bs seg_append)
    note cn = chain_next [OF ok pin nx]
    from merge_left_effect [OF p cn(2) [symmetric] cn(4) cn(5)] ml
    have h1: "h1 = h\<lparr>m_Blocks := merged ?B p block0 (m_FirstUnusedBlockInfo h),
                      m_FirstUnusedBlockInfo := Some block0\<rparr>"
      and eq: "block = p" "removed = True"
      by simp_all
    have fl: "\<forall>j < m_FreeListSize h1. \<forall>b. m_FreeList h1 j = Some b \<longrightarrow> b < ?M"
      using wf by (simp add: h1 wf_heap_def ptrs_ok_def)
    have "\<exists>bs'. wf_heap h1 (Suc i) bs' \<and> set bs' = set bs - {block0} \<and> block0 \<in> set bs \<and> block0 \<noteq> p"
      by (rule merged_wf [OF wf pin nx _ cp _ _ _ _ _ _ _ _ _ fl]) (simp_all add: h1)
    then obtain bs1 where wf1: "wf_heap h1 (Suc i) bs1" and set1: "set bs1 = set bs - {block0}"
      and ne: "block0 \<noteq> p"
      by blast
    from ne have "m_Allocated (m_Blocks h1 p) = m_Allocated (?B p)
                  \<and> m_PendingFree (m_Blocks h1 p) = m_PendingFree (?B p)"
      using merged_flags [of p block0 ?B p "m_FirstUnusedBlockInfo h"] by (simp add: h1)
    with p(2,3) have "\<not> m_Allocated (m_Blocks h1 p)" "\<not> m_PendingFree (m_Blocks h1 p)" by simp_all
    moreover from pin ne have "p \<in> set bs1" by (simp add: set1)
    moreover have "m_PendingList h1 = m_PendingList h" "m_PendingListSize h1 = m_PendingListSize h"
      "m_HeapPageCount h1 = m_HeapPageCount h"
      by (simp_all add: h1)
    ultimately show ?thesis using wf1 unfolding eq by blast
  qed
qed

lemma merge_right_wf:
  assumes wf: "wf_heap h i bs" and blk: "block \<in> set bs"
    and mr: "merge_right h block = Inr h'"
  shows "\<exists>bs'. wf_heap h' i bs' \<and> block \<in> set bs'
           \<and> m_Allocated (m_Blocks h' block) = m_Allocated (m_Blocks h block)
           \<and> m_PendingFree (m_Blocks h' block) = m_PendingFree (m_Blocks h block)
           \<and> m_PendingList h' = m_PendingList h \<and> m_PendingListSize h' = m_PendingListSize h
           \<and> m_HeapPageCount h' = m_HeapPageCount h"
proof -
  let ?B = "m_Blocks h" and ?M = "m_MaxAllocs h" and ?P = "m_HeapPageCount h"
  from wf have ok: "blocks_ok ?B ?M ?P bs" and pend: "pending_ok h i bs"
    by (simp_all add: wf_heap_def)
  let ?cond = "\<exists>n. m_Next (?B block) = Some n
                 \<and> \<not> m_Allocated (?B n) \<and> \<not> m_PendingFree (?B n)
                 \<and> m_PageIndex (?B n) = m_PageIndex (?B block) + m_PageCount (?B block)"
  show ?thesis
  proof (cases ?cond)
    case False
    then have "m_Next (?B block) = None
         \<or> (\<exists>n. m_Next (?B block) = Some n
               \<and> \<not> (\<not> m_Allocated (?B n) \<and> \<not> m_PendingFree (?B n)
                    \<and> m_PageIndex (?B n) = m_PageIndex (?B block) + m_PageCount (?B block)))"
      by (cases "m_Next (?B block)") auto
    from merge_right_none [OF this] mr have "h' = h" by simp
    with wf blk show ?thesis by blast
  next
    case True
    then obtain n where n: "m_Next (?B block) = Some n"
      "\<not> m_Allocated (?B n)" "\<not> m_PendingFree (?B n)"
      "m_PageIndex (?B n) = m_PageIndex (?B block) + m_PageCount (?B block)"
      by blast
    note cn = chain_next [OF ok blk n(1)]
    from wf have fl: "\<forall>j < m_FreeListSize h. \<forall>b. m_FreeList h j = Some b \<longrightarrow> b < ?M"
      by (simp add: wf_heap_def ptrs_ok_def)
    from merge_right_effect [OF mr n(1,2,3,4) cn(2,4,5) fl]
    obtain fl' sz where h': "h' = h\<lparr>m_Blocks := merged ?B block n (m_FirstUnusedBlockInfo h),
                          m_FirstUnusedBlockInfo := Some n,
                          m_FreeList := fl', m_FreeListSize := sz\<rparr>"
      and fl': "\<forall>j < m_FreeListSize h'. \<forall>b. m_FreeList h' j = Some b \<longrightarrow> b < ?M"
      by (elim exE conjE) (rule that, assumption+)
    have cp: "\<forall>j. i \<le> j \<and> j < m_PendingListSize h \<longrightarrow> m_PendingList h j \<noteq> Some n"
    proof (intro allI impI notI)
      fix j assume j: "i \<le> j \<and> j < m_PendingListSize h" and e: "m_PendingList h j = Some n"
      from pend j obtain b where "m_PendingList h j = Some b" "m_PendingFree (?B b)"
        unfolding pending_ok_def by blast
      with e n(3) show False by simp
    qed
    have "\<exists>bs'. wf_heap h' i bs' \<and> set bs' = set bs - {n} \<and> n \<in> set bs \<and> n \<noteq> block"
      by (rule merged_wf [OF wf blk n(1) _ cp _ _ _ _ _ _ _ _ _ fl'])
         (simp_all add: h')
    then obtain bs' where wf': "wf_heap h' i bs'" and set': "set bs' = set bs - {n}"
      and ne: "n \<noteq> block"
      by blast
    from ne have "m_Allocated (m_Blocks h' block) = m_Allocated (?B block)
                  \<and> m_PendingFree (m_Blocks h' block) = m_PendingFree (?B block)"
      using merged_flags [of block n ?B block "m_FirstUnusedBlockInfo h"] by (simp add: h')
    moreover from blk ne have "block \<in> set bs'" by (simp add: set')
    moreover have "m_PendingList h' = m_PendingList h" "m_PendingListSize h' = m_PendingListSize h"
      "m_HeapPageCount h' = m_HeapPageCount h"
      by (simp_all add: h')
    ultimately show ?thesis using wf' by blast
  qed
qed

lemma release_wf:
  assumes wf: "wf_heap h i bs" and blk: "block \<in> set bs"
    and al: "\<not> m_Allocated (m_Blocks h block)"
    and cp: "\<forall>j. i \<le> j \<and> j < m_PendingListSize h \<longrightarrow> m_PendingList h j \<noteq> Some block"
  shows "wf_heap (h\<lparr>m_Blocks := (m_Blocks h)(block := (m_Blocks h block)\<lparr>m_PendingFree := False\<rparr>),
                    m_FreeList := (m_FreeList h)(m_FreeListSize h := Some block),
                    m_FreeListSize := u32 (m_FreeListSize h + 1)\<rparr>) i bs"
proof -
  let ?B = "m_Blocks h" and ?M = "m_MaxAllocs h" and ?P = "m_HeapPageCount h"
  let ?B' = "?B(block := (?B block)\<lparr>m_PendingFree := False\<rparr>)"
  from wf have ok: "blocks_ok ?B ?M ?P bs" and ptrs: "ptrs_ok h" and pend: "pending_ok h i bs"
    and vm: "vm_ok h"
    by (simp_all add: wf_heap_def)
  have ok': "blocks_ok ?B' ?M ?P bs"
  proof (rule blocks_ok_flags [OF ok])
    fix r assume "r \<in> set bs"
    with ok show "\<not> (m_Allocated (?B' r) \<and> m_PendingFree (?B' r))"
      by (simp add: blocks_ok_def)
  next
    fix r assume "r \<notin> set bs"
    with blk have "r \<noteq> block" by auto
    then show "m_Allocated (?B' r) = m_Allocated (?B r) \<and> m_PendingFree (?B' r) = m_PendingFree (?B r)"
      by simp
  qed simp_all
  from ok blk have bM: "block < ?M" by (simp add: blocks_ok_def)
  have le: "u32 (m_FreeListSize h + 1) \<le> m_FreeListSize h + 1" by (rule u32_le)
  have p': "ptrs_ok (h\<lparr>m_Blocks := ?B', m_FreeList := (m_FreeList h)(m_FreeListSize h := Some block),
                    m_FreeListSize := u32 (m_FreeListSize h + 1)\<rparr>)"
    unfolding ptrs_ok_def
  proof (intro conjI allI impI)
    fix j b
    assume j: "j < m_FreeListSize (h\<lparr>m_Blocks := ?B', m_FreeList := (m_FreeList h)(m_FreeListSize h := Some block),
                    m_FreeListSize := u32 (m_FreeListSize h + 1)\<rparr>)"
      and e: "m_FreeList (h\<lparr>m_Blocks := ?B', m_FreeList := (m_FreeList h)(m_FreeListSize h := Some block),
                    m_FreeListSize := u32 (m_FreeListSize h + 1)\<rparr>) j = Some b"
    show "b < m_MaxAllocs (h\<lparr>m_Blocks := ?B', m_FreeList := (m_FreeList h)(m_FreeListSize h := Some block),
                    m_FreeListSize := u32 (m_FreeListSize h + 1)\<rparr>)"
    proof (cases "j = m_FreeListSize h")
      case True
      with e bM show ?thesis by simp
    next
      case False
      with j le have "j < m_FreeListSize h" by simp
      moreover from e False have "m_FreeList h j = Some b" by simp
      ultimately show ?thesis using ptrs by (simp add: ptrs_ok_def)
    qed
  qed (use ptrs in \<open>simp_all add: ptrs_ok_def\<close>)
  have pend': "pending_ok (h\<lparr>m_Blocks := ?B', m_FreeList := (m_FreeList h)(m_FreeListSize h := Some block),
                    m_FreeListSize := u32 (m_FreeListSize h + 1)\<rparr>) i bs"
    unfolding pending_ok_def
  proof (intro conjI allI impI)
    fix j
    assume "i \<le> j \<and> j < m_PendingListSize (h\<lparr>m_Blocks := ?B', m_FreeList := (m_FreeList h)(m_FreeListSize h := Some block),
                    m_FreeListSize := u32 (m_FreeListSize h + 1)\<rparr>)"
    then have j: "i \<le> j \<and> j < m_PendingListSize h" by simp
    with pend obtain b where b: "m_PendingList h j = Some b" "b \<in> set bs"
      "\<not> m_Allocated (?B b)" "m_PendingFree (?B b)"
      unfolding pending_ok_def by blast
    from cp j b(1) have "b \<noteq> block" by auto
    with b show "\<exists>b. m_PendingList (h\<lparr>m_Blocks := ?B', m_FreeList := (m_FreeList h)(m_FreeListSize h := Some block),
                    m_FreeListSize := u32 (m_FreeListSize h + 1)\<rparr>) j = Some b \<and> b \<in> set bs
         \<and> \<not> m_Allocated (m_Blocks (h\<lparr>m_Blocks := ?B', m_FreeList := (m_FreeList h)(m_FreeListSize h := Some block),
                    m_FreeListSize := u32 (m_FreeListSize h + 1)\<rparr>) b)
         \<and> m_PendingFree (m_Blocks (h\<lparr>m_Blocks := ?B', m_FreeList := (m_FreeList h)(m_FreeListSize h := Some block),
                    m_FreeListSize := u32 (m_FreeListSize h + 1)\<rparr>) b)"
      by simp
  next
    fix j k
    assume "i \<le> j \<and> j < k \<and> k < m_PendingListSize (h\<lparr>m_Blocks := ?B', m_FreeList := (m_FreeList h)(m_FreeListSize h := Some block),
                    m_FreeListSize := u32 (m_FreeListSize h + 1)\<rparr>)"
    then have "i \<le> j \<and> j < k \<and> k < m_PendingListSize h" by simp
    with pend have "m_PendingList h j \<noteq> m_PendingList h k" unfolding pending_ok_def by blast
    then show "m_PendingList (h\<lparr>m_Blocks := ?B', m_FreeList := (m_FreeList h)(m_FreeListSize h := Some block),
                    m_FreeListSize := u32 (m_FreeListSize h + 1)\<rparr>) j
            \<noteq> m_PendingList (h\<lparr>m_Blocks := ?B', m_FreeList := (m_FreeList h)(m_FreeListSize h := Some block),
                    m_FreeListSize := u32 (m_FreeListSize h + 1)\<rparr>) k"
      by simp
  qed
  from vm have vm': "vm_ok (h\<lparr>m_Blocks := ?B', m_FreeList := (m_FreeList h)(m_FreeListSize h := Some block),
                    m_FreeListSize := u32 (m_FreeListSize h + 1)\<rparr>)"
    by (simp add: vm_ok_def)
  from ok' p' pend' vm' show ?thesis by (simp add: wf_heap_def)
qed

lemma flush_entry_wf:
  assumes wf: "wf_heap h i bs" and i: "i < m_PendingListSize h"
    and fe: "flush_entry h i = Inr h'"
  shows "\<exists>bs'. wf_heap h' (Suc i) bs' \<and> m_PendingListSize h' = m_PendingListSize h"
proof -
  from wf have pend: "pending_ok h i bs" by (simp add: wf_heap_def)
  from pend i obtain block0 where b0: "m_PendingList h i = Some block0" "block0 \<in> set bs"
    "\<not> m_Allocated (m_Blocks h block0)" "m_PendingFree (m_Blocks h block0)"
    unfolding pending_ok_def by blast
  have cp: "\<forall>j. Suc i \<le> j \<and> j < m_PendingListSize h \<longrightarrow> m_PendingList h j \<noteq> Some block0"
  proof (intro allI impI)
    fix j assume "Suc i \<le> j \<and> j < m_PendingListSize h"
    then have "i \<le> i \<and> i < j \<and> j < m_PendingListSize h" by simp
    with pend have "m_PendingList h i \<noteq> m_PendingList h j" unfolding pending_ok_def by blast
    with b0(1) show "m_PendingList h j \<noteq> Some block0" by simp
  qed
  obtain h1 block removed where ml: "merge_left h block0 = (h1, block, removed)"
    by (cases "merge_left h block0") auto
  from fe b0(1) ml obtain h2 where mr: "merge_right h1 block = Inr h2"
    and fin: "(if removed then Inr h2
               else (let heap3 = upd_block h2 block (\<lambda>r. r\<lparr>m_PendingFree := False\<rparr>)
                     in (if \<not> m_FreeListSize heap3 < m_HeapPageCount heap3 then Inl OutOfBounds
                         else Inr (heap3\<lparr>m_FreeList := fun_upd (m_FreeList heap3)
                                                           (m_FreeListSize heap3) (Some block),
                                         m_FreeListSize := u32 (m_FreeListSize heap3 + 1)\<rparr>)))) = Inr h'"
    by (auto simp: flush_entry_def split: if_splits sum.splits)
  from merge_left_wf [OF wf b0(2,3,4) cp ml] obtain bs1 where
    wf1: "wf_heap h1 (Suc i) bs1" and in1: "block \<in> set bs1"
    and f1: "\<not> m_Allocated (m_Blocks h1 block)" "m_PendingFree (m_Blocks h1 block) = (\<not> removed)"
      "\<not> removed \<longrightarrow> block = block0"
    and s1: "m_PendingList h1 = m_PendingList h" "m_PendingListSize h1 = m_PendingListSize h"
      "m_HeapPageCount h1 = m_HeapPageCount h"
    by (elim exE conjE) (rule that, assumption+)
  from merge_right_wf [OF wf1 in1 mr] obtain bs2 where
    wf2: "wf_heap h2 (Suc i) bs2" and in2: "block \<in> set bs2"
    and f2: "m_Allocated (m_Blocks h2 block) = m_Allocated (m_Blocks h1 block)"
      "m_PendingFree (m_Blocks h2 block) = m_PendingFree (m_Blocks h1 block)"
    and s2: "m_PendingList h2 = m_PendingList h1" "m_PendingListSize h2 = m_PendingListSize h1"
      "m_HeapPageCount h2 = m_HeapPageCount h1"
    by (elim exE conjE) (rule that, assumption+)
  show ?thesis
  proof (cases removed)
    case True
    with fin have "h' = h2" by simp
    with wf2 s1 s2 show ?thesis by auto
  next
    case False
    with f1(3) have bb: "block = block0" by simp
    from fin False
    have h': "h' = h2\<lparr>m_Blocks := (m_Blocks h2)(block := (m_Blocks h2 block)\<lparr>m_PendingFree := False\<rparr>),
                      m_FreeList := (m_FreeList h2)(m_FreeListSize h2 := Some block),
                      m_FreeListSize := u32 (m_FreeListSize h2 + 1)\<rparr>"
      by (simp add: upd_block_def Let_def split: if_splits)
    have cp2: "\<forall>j. Suc i \<le> j \<and> j < m_PendingListSize h2 \<longrightarrow> m_PendingList h2 j \<noteq> Some block"
      using cp by (simp add: s1 s2 bb)
    from f1(1) f2(1) have al: "\<not> m_Allocated (m_Blocks h2 block)" by simp
    have "wf_heap h' (Suc i) bs2"
      unfolding h' by (rule release_wf [OF wf2 in2 al cp2])
    moreover have "m_PendingListSize h' = m_PendingListSize h" by (simp add: h' s1 s2)
    ultimately show ?thesis by blast
  qed
qed

lemma flush_loop_wf:
  assumes "wf_heap h i bs" and "count = m_PendingListSize h" and "flush_loop h i count = Inr h'"
  shows "\<exists>bs'. wf_heap h' count bs' \<and> m_PendingListSize h' = count"
  using assms
proof (induction h i count arbitrary: bs rule: flush_loop.induct)
  case (1 heap i count)
  show ?case
  proof (cases "i < count")
    case False
    with "1.prems"(3) have "h' = heap" by (simp add: flush_loop.simps)
    moreover from "1.prems"(1) have "wf_heap heap count bs"
      by (auto simp: wf_heap_def pending_ok_def "1.prems"(2))
    ultimately show ?thesis using "1.prems"(2) by blast
  next
    case True
    from "1.prems"(3) True obtain h1 where fe: "flush_entry heap i = Inr h1"
      and rec: "flush_loop h1 (i + 1) count = Inr h'"
      by (subst (asm) flush_loop.simps) (auto split: sum.splits)
    from True "1.prems"(2) have "i < m_PendingListSize heap" by simp
    from flush_entry_wf [OF "1.prems"(1) this fe] obtain bs1 where
      wf1: "wf_heap h1 (Suc i) bs1" and sz: "m_PendingListSize h1 = m_PendingListSize heap"
      by blast
    from wf1 have wf1': "wf_heap h1 (i + 1) bs1" by simp
    from sz "1.prems"(2) have c: "count = m_PendingListSize h1" by simp
    show ?thesis by (rule "1.IH" [OF True fe wf1' c rec])
  qed
qed

lemma FlushPendingFrees_wf:
  assumes "wf_heap h 0 bs" and "FlushPendingFrees h = Inr h'"
  shows "\<exists>bs'. wf_heap h' 0 bs' \<and> m_PendingListSize h' = 0"
proof -
  from assms(2) obtain h1 where fl: "flush_loop h 0 (m_PendingListSize h) = Inr h1"
    and h': "h' = h1\<lparr>m_PendingListSize := 0\<rparr>"
    by (auto simp: FlushPendingFrees_def split: sum.splits)
  from flush_loop_wf [OF assms(1) refl fl] obtain bs' where
    "wf_heap h1 (m_PendingListSize h) bs'" by blast
  then have "wf_heap h' 0 bs'" by (simp add: h' wf_defs)
  then show ?thesis by (auto simp: h')
qed

section \<open>The lookup table and the pointers handed out\<close>

lemma remove_from_free_list_fields:
  assumes "remove_from_free_list h n fi fcount = Inr h'"
  shows "\<exists>fl sz. h' = h\<lparr>m_FreeList := fl, m_FreeListSize := sz\<rparr>"
  using assms
proof (induction h n fi fcount rule: remove_from_free_list.induct)
  case (1 heap next_block fi fcount)
  have triv: "heap = heap\<lparr>m_FreeList := m_FreeList heap, m_FreeListSize := m_FreeListSize heap\<rparr>"
    by simp
  show ?case
  proof (cases "fi < fcount")
    case False
    with "1.prems" have "h' = heap" by (simp add: remove_from_free_list.simps)
    with triv show ?thesis by blast
  next
    case True
    from "1.prems"(1) True have inr: "fi < m_HeapPageCount heap"
      by (subst (asm) remove_from_free_list.simps) (auto split: if_splits)
    show ?thesis
    proof (cases "m_FreeList heap fi = Some next_block")
      case hit: True
      from "1.prems"(1) True inr hit show ?thesis
        by (subst (asm) remove_from_free_list.simps) (auto split: if_splits)
    next
      case miss: False
      from "1.prems"(1) True inr miss
      have rec: "remove_from_free_list heap next_block (fi + 1) fcount = Inr h'"
        by (subst (asm) remove_from_free_list.simps) (auto split: if_splits)
      show ?thesis
        by (rule "1.IH" [OF True _ miss rec]) (use inr in simp)
    qed
  qed
qed

lemma same_region_refl [simp]: "same_region h h"
  by (simp add: same_region_def)

lemma same_region_trans: "same_region h h1 \<Longrightarrow> same_region h1 h2 \<Longrightarrow> same_region h h2"
  by (simp add: same_region_def)

lemma same_region_upd [simp]:
  "same_region h (upd_block h' b f) = same_region h h'"
  "same_region h (FreeBlockInfo h' b) = same_region h h'"
  "same_region h (h'\<lparr>m_FreeList := fl\<rparr>) = same_region h h'"
  "same_region h (h'\<lparr>m_FreeListSize := sz\<rparr>) = same_region h h'"
  "same_region h (h'\<lparr>m_Blocks := B\<rparr>) = same_region h h'"
  "same_region h (h'\<lparr>m_PendingList := pl\<rparr>) = same_region h h'"
  "same_region h (h'\<lparr>m_PendingListSize := ps\<rparr>) = same_region h h'"
  "same_region h (h'\<lparr>m_FirstUnusedBlockInfo := fu\<rparr>) = same_region h h'"
  "same_region h (h'\<lparr>m_ReentrancyGuard := g\<rparr>) = same_region h h'"
  "same_region h (h'\<lparr>vm_access := acc\<rparr>) = same_region h h'"
  by (simp_all add: same_region_def upd_block_def FreeBlockInfo_def)

lemma merge_left_fields:
  assumes "merge_left h b = (h', blk, r)"
  shows "same_region h h'"
  using assms
  by (auto simp: merge_left_def Let_def split: option.splits if_splits)

lemma merge_right_fields:
  assumes "merge_right h b = Inr h'"
  shows "same_region h h'"
  using assms
  by (auto simp: merge_right_def Let_def split: option.splits if_splits sum.splits
           dest!: remove_from_free_list_fields)

lemma flush_entry_fields:
  assumes "flush_entry h i = Inr h'"
  shows "same_region h h'"
proof -
  from assms obtain b0 where b0: "m_PendingList h i = Some b0"
    by (auto simp: flush_entry_def split: if_splits option.splits)
  obtain h1 blk r where ml: "merge_left h b0 = (h1, blk, r)" by (cases "merge_left h b0") auto
  from assms b0 ml obtain h2 where mr: "merge_right h1 blk = Inr h2"
    and fin: "h' = h2 \<or> (\<exists>B fl sz. h' = h2\<lparr>m_Blocks := B, m_FreeList := fl, m_FreeListSize := sz\<rparr>)"
    by (auto simp: flush_entry_def upd_block_def Let_def split: if_splits sum.splits)
  from fin have "same_region h2 h'" by auto
  with merge_left_fields [OF ml] merge_right_fields [OF mr] show ?thesis
    by (blast intro: same_region_trans)
qed

lemma flush_loop_fields:
  assumes "flush_loop h i count = Inr h'"
  shows "same_region h h'"
  using assms
proof (induction h i count rule: flush_loop.induct)
  case (1 heap i count)
  show ?case
  proof (cases "i < count")
    case False
    with "1.prems" show ?thesis by (simp add: flush_loop.simps)
  next
    case True
    from "1.prems" True obtain h1 where fe: "flush_entry heap i = Inr h1"
      and rec: "flush_loop h1 (i + 1) count = Inr h'"
      by (subst (asm) flush_loop.simps) (auto split: sum.splits)
    from "1.IH" [OF True fe rec] flush_entry_fields [OF fe] show ?thesis
      by (blast intro: same_region_trans)
  qed
qed

lemma FlushPendingFrees_fields:
  assumes "FlushPendingFrees h = Inr h'"
  shows "same_region h h'"
  using assms
  by (auto simp: FlushPendingFrees_def split: sum.splits dest!: flush_loop_fields)

lemma AllocFromFreeList_lookup:
  assumes "AllocFromFreeList h req = Inr (h', ptr)"
  shows "(h' = h \<and> ptr = 0)
       \<or> (\<exists>b idx. idx < m_HeapPageCount h \<and> m_BlockLookup h idx = None
             \<and> m_BlockLookup h' = (m_BlockLookup h)(idx := Some b)
             \<and> m_Allocated (m_Blocks h' b) \<and> \<not> m_PendingFree (m_Blocks h' b)
             \<and> ptr = u64 (m_BaseAddress h + idx * kPageSize)
             \<and> m_BaseAddress h' = m_BaseAddress h \<and> m_HeapPageCount h' = m_HeapPageCount h
             \<and> m_MaxAllocs h' = m_MaxAllocs h \<and> vm_mapped h' = vm_mapped h)"
proof -
  from AllocFromFreeList_cases [OF assms]
  consider (none) "h' = h \<and> ptr = 0"
    | (some) b bsz bi h2 where
        "scan_free_list h req 0 (m_FreeListSize h) (None, 2 ^ 32 - 1, 0) = Inr (Some b, bsz, bi)"
        "(if 0 < u32 (u64 (bsz + 2 ^ 64 - req))
          then carve_tail (take_off_free_list h bi) b (u32 (u64 (bsz + 2 ^ 64 - req))) req
          else Inr (take_off_free_list h bi)) = Inr h2"
        "mark_allocated h2 b = Inr (h', ptr)"
    by blast
  then show ?thesis
  proof cases
    case none
    then show ?thesis by simp
  next
    case some
    have "scan_inv h req 0 (None, 2 ^ 32 - 1, 0)" by (simp add: scan_inv_def)
    from scan_free_list_inv [OF some(1) _ this]
    have inv: "scan_inv h req (m_FreeListSize h) (Some b, bsz, bi)" by simp
    then have b: "\<not> m_Allocated (m_Blocks h b)" "\<not> m_PendingFree (m_Blocks h b)"
      by (auto simp: scan_inv_def)
    let ?h1 = "take_off_free_list h bi"
    have f1: "m_Blocks ?h1 = m_Blocks h" "m_BlockLookup ?h1 = m_BlockLookup h"
      "m_BaseAddress ?h1 = m_BaseAddress h" "m_HeapPageCount ?h1 = m_HeapPageCount h"
      "m_MaxAllocs ?h1 = m_MaxAllocs h" "vm_mapped ?h1 = vm_mapped h"
      by (simp_all add: take_off_free_list_def Let_def)
    have f2: "m_BlockLookup h2 = m_BlockLookup h \<and> m_BaseAddress h2 = m_BaseAddress h
         \<and> m_HeapPageCount h2 = m_HeapPageCount h \<and> m_MaxAllocs h2 = m_MaxAllocs h
         \<and> vm_mapped h2 = vm_mapped h
         \<and> m_PageIndex (m_Blocks h2 b) = m_PageIndex (m_Blocks h b)
         \<and> \<not> m_PendingFree (m_Blocks h2 b)"
    proof (cases "0 < u32 (u64 (bsz + 2 ^ 64 - req))")
      case True
      with some(2) have carve: "carve_tail ?h1 b (u32 (u64 (bsz + 2 ^ 64 - req))) req = Inr h2"
        by simp
      have "\<not> m_Allocated (m_Blocks ?h1 b)" using b by (simp add: f1)
      from carve_tail_effect [OF carve this] obtain t where "t \<noteq> b"
        and "h2 = ?h1\<lparr>m_FirstUnusedBlockInfo := m_Next (m_Blocks ?h1 t),
                    m_Blocks := (m_Blocks ?h1)
                      (t := \<lparr>m_Allocated = False, m_PageCount = u31 (u32 (u64 (bsz + 2 ^ 64 - req))),
                             m_PendingFree = False,
                             m_PageIndex = u31 (u32 (m_PageIndex (m_Blocks ?h1 b)
                                                      + m_PageCount (m_Blocks ?h1 b) + 2 ^ 32
                                                      - u32 (u64 (bsz + 2 ^ 64 - req)))),
                             m_Prev = Some b, m_Next = m_Next (m_Blocks ?h1 b)\<rparr>,
                       b := (m_Blocks ?h1 b)\<lparr>m_Next := Some t, m_PageCount := u31 (u32 req)\<rparr>),
                    m_FreeList := (m_FreeList ?h1)(m_FreeListSize ?h1 := Some t),
                    m_FreeListSize := u32 (m_FreeListSize ?h1 + 1)\<rparr>"
        by blast
      then show ?thesis using b by (simp add: f1)
    next
      case False
      with some(2) have "h2 = ?h1" by simp
      then show ?thesis using b by (simp add: f1)
    qed
    from some(3) have idx: "m_PageIndex (m_Blocks h2 b) < m_HeapPageCount h2"
      and lk: "m_BlockLookup h2 (m_PageIndex (m_Blocks h2 b)) = None"
      by (auto simp: mark_allocated_def upd_block_def Let_def split: if_splits option.splits)
    from mark_allocated_effect [OF some(3)]
    have h': "h' = h2\<lparr>m_Blocks := (m_Blocks h2)(b := (m_Blocks h2 b)\<lparr>m_Allocated := True\<rparr>),
                 m_BlockLookup := (m_BlockLookup h2)(m_PageIndex (m_Blocks h2 b) := Some b)\<rparr>"
      and ptr: "ptr = u64 (m_BaseAddress h2 + m_PageIndex (m_Blocks h2 b) * kPageSize)"
      by simp_all
    have "m_PageIndex (m_Blocks h b) < m_HeapPageCount h \<and> m_BlockLookup h (m_PageIndex (m_Blocks h b)) = None
             \<and> m_BlockLookup h' = (m_BlockLookup h)(m_PageIndex (m_Blocks h b) := Some b)
             \<and> m_Allocated (m_Blocks h' b) \<and> \<not> m_PendingFree (m_Blocks h' b)
             \<and> ptr = u64 (m_BaseAddress h + m_PageIndex (m_Blocks h b) * kPageSize)
             \<and> m_BaseAddress h' = m_BaseAddress h \<and> m_HeapPageCount h' = m_HeapPageCount h
             \<and> m_MaxAllocs h' = m_MaxAllocs h \<and> vm_mapped h' = vm_mapped h"
      using idx lk f2 by (simp add: h' ptr)
    then show ?thesis by blast
  qed
qed

lemma and_not32_le: "and_not32 x m \<le> x"
proof -
  have "(of_nat x :: 32 word) AND NOT (of_nat m) \<le> of_nat x" by (rule word_and_le2)
  then have "and_not32 x m \<le> unat (of_nat x :: 32 word)"
    by (simp add: and_not32_def word_le_nat_alt)
  also have "\<dots> \<le> x" by (simp add: unat_of_nat)
  finally show ?thesis .
qed

lemma aligned_offset_less: "aligned_offset s a < kPageSize"
proof -
  have "aligned_offset s a \<le> ideal_offset s" by (simp add: aligned_offset_def and_not32_le)
  also have "\<dots> < kPageSize" by (simp add: ideal_offset_def kPageSize_def)
  finally show ?thesis .
qed

lemma user_pointer:
  assumes ok: "region_ok h" and idx: "idx < m_HeapPageCount h" and off: "off < kPageSize"
  shows "u64 (u64 (m_BaseAddress h + idx * kPageSize) + off) = m_BaseAddress h + idx * kPageSize + off"
    and "0 < m_BaseAddress h + idx * kPageSize + off"
    and "page_of h (m_BaseAddress h + idx * kPageSize + off) = idx"
    and "page_index_of h (m_BaseAddress h + idx * kPageSize + off) = idx"
    and "u64 (m_BaseAddress h + idx * kPageSize) \<noteq> 0"
proof -
  let ?b = "m_BaseAddress h" and ?P = "m_HeapPageCount h"
  from ok have b0: "0 < ?b" and top: "?b + ?P * kPageSize \<le> 2 ^ 64" and P: "?P < 2 ^ 32"
    by (simp_all add: region_ok_def)
  from idx have "Suc idx \<le> ?P" by simp
  then have "Suc idx * kPageSize \<le> ?P * kPageSize" by (rule mult_le_mono1)
  then have le: "idx * kPageSize + kPageSize \<le> ?P * kPageSize" by simp
  with off top have lt: "?b + idx * kPageSize + off < 2 ^ 64" by linarith
  then have lt0: "?b + idx * kPageSize < 2 ^ 64" by linarith
  from lt0 have p0: "u64 (?b + idx * kPageSize) = ?b + idx * kPageSize" by (rule u64_id)
  show "u64 (u64 (?b + idx * kPageSize) + off) = ?b + idx * kPageSize + off"
    unfolding p0 using lt by (rule u64_id)
  show "0 < ?b + idx * kPageSize + off" using b0 by simp
  show "u64 (?b + idx * kPageSize) \<noteq> 0" unfolding p0 using b0 by simp
  have d: "(idx * kPageSize + off) div kPageSize = idx"
    using off by (simp add: kPageSize_def)
  show "page_of h (?b + idx * kPageSize + off) = idx"
    using d by (simp add: page_of_def add.assoc)
  from lt have blt: "?b < 2 ^ 64" by linarith
  have "u64 (u64 (?b + idx * kPageSize + off) + 2 ^ 64 - u64 ?b) = idx * kPageSize + off"
  proof -
    have 1: "u64 (?b + idx * kPageSize + off) = ?b + idx * kPageSize + off" using lt by (rule u64_id)
    have 2: "u64 ?b = ?b" using blt by (rule u64_id)
    have "?b \<le> ?b + idx * kPageSize + off" by simp
    from u64_sub [OF this lt] show ?thesis unfolding 1 2 by simp
  qed
  moreover from idx P have "idx < 2 ^ 32" by simp
  ultimately show "page_index_of h (?b + idx * kPageSize + off) = idx"
    using d by (simp add: page_index_of_def u32_id)
qed

lemma region_ok_cong:
  "m_BaseAddress h' = m_BaseAddress h \<Longrightarrow> m_HeapPageCount h' = m_HeapPageCount h
     \<Longrightarrow> region_ok h' = region_ok h"
  by (simp add: region_ok_def)

lemma finish_alloc_effect:
  assumes "finish_alloc h ptr us pr al = Inr (h', r)"
  shows "\<exists>f. h' = h\<lparr>vm_access := f, m_ReentrancyGuard := 0\<rparr> \<and> r = u64 (ptr + aligned_offset us al)"
proof -
  from assms obtain h1 where fa: "FinalizeAlloc h ptr us pr al = Inr (h1, r)"
    and lv: "DEBUG_THREAD_GUARD_LEAVE h1 = Inr h'"
    by (auto simp: finish_alloc_def split: sum.splits)
  from fa obtain h2 h3 where "VmCommit h ptr (u64 (u64 (pr + 2 ^ 64 - 1) * kPageSize)) = Inr h2"
    and "VmDecommit h2 (u64 (ptr + u64 (u64 (pr + 2 ^ 64 - 1) * kPageSize))) kPageSize = Inr h3"
    and "h1 = h3" and r: "r = u64 (ptr + aligned_offset us al)"
    by (auto simp: FinalizeAlloc_def Let_def split: sum.splits if_splits)
  with VmCommit_Inr VmDecommit_Inr obtain f where "h1 = h\<lparr>vm_access := f\<rparr>"
    by fastforce
  with guard_leave_Inr [OF lv] r show ?thesis by auto
qed

text \<open>What a call of \<open>DebugHeapAllocate\<close> that returns has done to the lookup table.\<close>

lemma found_effect:
  assumes ok: "region_ok h" and al: "AllocFromFreeList h req = Inr (h2, ptr)"
    and found: "\<not> (h2 = h \<and> ptr = 0)"
  shows "ptr \<noteq> 0"
    and "finish_alloc h2 ptr s req a = Inr (h', r) \<Longrightarrow>
         m_BaseAddress h' = m_BaseAddress h \<and> m_HeapPageCount h' = m_HeapPageCount h
         \<and> m_ReentrancyGuard h' = 0
         \<and> (\<exists>b idx. idx < m_HeapPageCount h \<and> m_BlockLookup h idx = None
               \<and> m_BlockLookup h' = (m_BlockLookup h)(idx := Some b)
               \<and> m_Allocated (m_Blocks h' b) \<and> \<not> m_PendingFree (m_Blocks h' b)
               \<and> r = m_BaseAddress h + idx * kPageSize + aligned_offset s a)"
proof -
  from AllocFromFreeList_lookup [OF al] found obtain b idx where
    e: "idx < m_HeapPageCount h" "m_BlockLookup h idx = None"
      "m_BlockLookup h2 = (m_BlockLookup h)(idx := Some b)"
      "m_Allocated (m_Blocks h2 b)" "\<not> m_PendingFree (m_Blocks h2 b)"
      "ptr = u64 (m_BaseAddress h + idx * kPageSize)"
      "m_BaseAddress h2 = m_BaseAddress h" "m_HeapPageCount h2 = m_HeapPageCount h"
    by blast
  note up = user_pointer [OF ok e(1) aligned_offset_less [of s a]]
  show "ptr \<noteq> 0" unfolding e(6) by (rule up(5))
  assume "finish_alloc h2 ptr s req a = Inr (h', r)"
  from finish_alloc_effect [OF this] obtain f where
    h': "h' = h2\<lparr>vm_access := f, m_ReentrancyGuard := 0\<rparr>"
    and r: "r = u64 (ptr + aligned_offset s a)"
    by blast
  from r have "r = m_BaseAddress h + idx * kPageSize + aligned_offset s a"
    unfolding e(6) up(1) .
  with e show "m_BaseAddress h' = m_BaseAddress h \<and> m_HeapPageCount h' = m_HeapPageCount h
         \<and> m_ReentrancyGuard h' = 0
         \<and> (\<exists>b idx. idx < m_HeapPageCount h \<and> m_BlockLookup h idx = None
               \<and> m_BlockLookup h' = (m_BlockLookup h)(idx := Some b)
               \<and> m_Allocated (m_Blocks h' b) \<and> \<not> m_PendingFree (m_Blocks h' b)
               \<and> r = m_BaseAddress h + idx * kPageSize + aligned_offset s a)"
    by (auto simp: h')
qed

lemma DebugHeapAllocate_effect:
  assumes ok: "region_ok h" and al: "DebugHeapAllocate h s a = Inr (h', r)"
  shows "m_BaseAddress h' = m_BaseAddress h \<and> m_HeapPageCount h' = m_HeapPageCount h
       \<and> m_ReentrancyGuard h' = 0
       \<and> ((r = 0 \<and> m_BlockLookup h' = m_BlockLookup h)
          \<or> (\<exists>b idx. idx < m_HeapPageCount h \<and> m_BlockLookup h idx = None
               \<and> m_BlockLookup h' = (m_BlockLookup h)(idx := Some b)
               \<and> m_Allocated (m_Blocks h' b) \<and> \<not> m_PendingFree (m_Blocks h' b)
               \<and> r = m_BaseAddress h + idx * kPageSize + aligned_offset s a))"
proof -
  let ?req = "page_req_of s"
  from al obtain h1 h2 ptr where enter: "DEBUG_THREAD_GUARD_ENTER h = Inr h1"
    and a1: "AllocFromFreeList h1 ?req = Inr (h2, ptr)"
    and rest: "(if ptr \<noteq> 0 then finish_alloc h2 ptr s ?req a
                else alloc_after_flush h2 s ?req a) = Inr (h', r)"
    by (auto simp: DebugHeapAllocate_def Let_def split: sum.splits)
  have h1: "h1 = h\<lparr>m_ReentrancyGuard := 1\<rparr>" by (rule guard_enter_Inr [OF enter])
  have ok1: "region_ok h1" using ok by (simp add: h1 region_ok_def)
  have f1: "m_BaseAddress h1 = m_BaseAddress h" "m_HeapPageCount h1 = m_HeapPageCount h"
    "m_BlockLookup h1 = m_BlockLookup h"
    by (simp_all add: h1)
  show ?thesis
  proof (cases "h2 = h1 \<and> ptr = 0")
    case False
    note fe = found_effect [OF ok1 a1 False]
    from fe(1) rest have "finish_alloc h2 ptr s ?req a = Inr (h', r)" by simp
    from fe(2) [OF this] show ?thesis unfolding f1 by blast
  next
    case True
    with rest have "alloc_after_flush h1 s ?req a = Inr (h', r)" by simp
    then obtain hf h3 ptr' where fl: "FlushPendingFrees h1 = Inr hf"
      and a2: "AllocFromFreeList hf ?req = Inr (h3, ptr')"
      and rest2: "(if ptr' \<noteq> 0 then finish_alloc h3 ptr' s ?req a
                   else (case DEBUG_THREAD_GUARD_LEAVE h3 of
                           Inl e \<Rightarrow> Inl e
                         | Inr heap3 \<Rightarrow> Inr (heap3, 0))) = Inr (h', r)"
      by (auto simp: alloc_after_flush_def split: sum.splits)
    from FlushPendingFrees_fields [OF fl]
    have ff: "m_BaseAddress hf = m_BaseAddress h" "m_HeapPageCount hf = m_HeapPageCount h"
      "m_BlockLookup hf = m_BlockLookup h"
      by (simp_all add: same_region_def f1)
    have okf: "region_ok hf" using ok by (simp add: region_ok_def ff)
    show ?thesis
    proof (cases "h3 = hf \<and> ptr' = 0")
      case False
      note fe = found_effect [OF okf a2 False]
      from fe(1) rest2 have "finish_alloc h3 ptr' s ?req a = Inr (h', r)" by simp
      from fe(2) [OF this] show ?thesis unfolding ff by blast
    next
      case True
      with rest2 obtain h4 where "DEBUG_THREAD_GUARD_LEAVE hf = Inr h4" "h' = h4" "r = 0"
        by (auto split: sum.splits)
      with guard_leave_Inr [of hf h4] have "h' = hf\<lparr>m_ReentrancyGuard := 0\<rparr>" "r = 0"
        by simp_all
      then show ?thesis by (simp add: ff)
    qed
  qed
qed

lemma DebugHeapFree_effect:
  assumes "DebugHeapFree h p = Inr h'"
  shows "m_BaseAddress h' = m_BaseAddress h \<and> m_HeapPageCount h' = m_HeapPageCount h
       \<and> m_ReentrancyGuard h' = 0
       \<and> page_index_of h p < m_HeapPageCount h
       \<and> m_BlockLookup h' = (m_BlockLookup h)(page_index_of h p := None)
       \<and> (\<exists>block. m_BlockLookup h (page_index_of h p) = Some block
             \<and> m_Allocated (m_Blocks h block) \<and> \<not> m_PendingFree (m_Blocks h block))"
proof -
  from assms obtain h1 block h2 where
    enter: "DEBUG_THREAD_GUARD_ENTER h = Inr h1"
    and inrange: "page_index_of h1 p < m_HeapPageCount h1"
    and lookup: "m_BlockLookup h1 (page_index_of h1 p) = Some block"
    and fb: "free_block h1 (page_index_of h1 p) block = Inr h2"
    and leave: "DEBUG_THREAD_GUARD_LEAVE h2 = Inr h'"
    by (auto simp: DebugHeapFree_def Let_def split: sum.splits if_splits option.splits)
  note f = free_block_Inr [OF fb]
  have h1: "h1 = h\<lparr>m_ReentrancyGuard := 1\<rparr>" by (rule guard_enter_Inr [OF enter])
  have pi: "page_index_of h1 p = page_index_of h p" by (simp add: page_index_of_def h1)
  from f inrange lookup show ?thesis
    unfolding pi by (simp add: guard_leave_Inr [OF leave] h1)
qed

lemma query_effect:
  assumes "DebugHeapGetAllocSize h p = Inr (h', r) \<or> DebugHeapOwns h p = Inr (h', r)"
  shows "h' = h\<lparr>m_ReentrancyGuard := 0\<rparr>"
  using assms
  by (auto simp: DebugHeapGetAllocSize_def DebugHeapOwns_def Let_def
           split: sum.splits if_splits option.splits
           dest!: guard_enter_Inr guard_leave_Inr)

lemma exec_effect:
  assumes ok: "region_ok h" and ex: "exec h c = Inr (h', r)"
  shows "m_BaseAddress h' = m_BaseAddress h \<and> m_HeapPageCount h' = m_HeapPageCount h
       \<and> m_ReentrancyGuard h' = 0
       \<and> (m_BlockLookup h page = None \<longrightarrow> m_BlockLookup h' page = None \<or> reuses h page c r)"
proof (cases c)
  case (Allocate s a)
  with ex have al: "DebugHeapAllocate h s a = Inr (h', r)" by simp
  note e = DebugHeapAllocate_effect [OF ok al]
  from e have base: "m_BaseAddress h' = m_BaseAddress h \<and> m_HeapPageCount h' = m_HeapPageCount h
       \<and> m_ReentrancyGuard h' = 0" by blast
  have "m_BlockLookup h' page = None \<or> reuses h page c r" if none: "m_BlockLookup h page = None"
  proof (cases "r = 0 \<and> m_BlockLookup h' = m_BlockLookup h")
    case True
    with none show ?thesis by simp
  next
    case False
    with e obtain b idx where i: "idx < m_HeapPageCount h"
      "m_BlockLookup h' = (m_BlockLookup h)(idx := Some b)"
      "r = m_BaseAddress h + idx * kPageSize + aligned_offset s a"
      by blast
    note up = user_pointer [OF ok i(1) aligned_offset_less [of s a]]
    show ?thesis
    proof (cases "idx = page")
      case True
      with up(2,3) show ?thesis by (simp add: Allocate i(3))
    next
      case False
      with none show ?thesis by (simp add: i(2))
    qed
  qed
  with base show ?thesis by blast
next
  case (Free p)
  with ex have "DebugHeapFree h p = Inr h'"
    by (auto split: sum.splits)
  from DebugHeapFree_effect [OF this] show ?thesis by auto
next
  case (GetAllocSize p)
  with ex query_effect [of h p h' r] show ?thesis by simp
next
  case (Owns p)
  with ex query_effect [of h p h' r] show ?thesis by simp
qed

lemma reuses_cong:
  "m_BaseAddress h' = m_BaseAddress h \<Longrightarrow> reuses h' page c r = reuses h page c r"
  by (cases c) (simp_all add: page_of_def)

lemma run_effect:
  assumes "region_ok h" and "run h cs = Inr (h', rs)"
  shows "region_ok h' \<and> m_BaseAddress h' = m_BaseAddress h
       \<and> m_HeapPageCount h' = m_HeapPageCount h
       \<and> (m_ReentrancyGuard h = 0 \<longrightarrow> m_ReentrancyGuard h' = 0)
       \<and> (m_BlockLookup h page = None
            \<and> list_all (\<lambda>(c, r). \<not> reuses h page c r) (zip cs rs)
          \<longrightarrow> m_BlockLookup h' page = None)"
  using assms
proof (induction cs arbitrary: h rs)
  case Nil
  then show ?case by simp
next
  case (Cons c cs)
  from Cons.prems(2) obtain h1 r rs1 where ex: "exec h c = Inr (h1, r)"
    and rn: "run h1 cs = Inr (h', rs1)" and rs: "rs = r # rs1"
    by (auto split: sum.splits)
  note e = exec_effect [OF Cons.prems(1) ex, of page]
  from e Cons.prems(1) have ok1: "region_ok h1" by (simp add: region_ok_def)
  note ih = Cons.IH [OF ok1 rn]
  from e have b: "m_BaseAddress h1 = m_BaseAddress h" by simp
  have "m_BlockLookup h' page = None"
    if "m_BlockLookup h page = None \<and> list_all (\<lambda>(c, r). \<not> reuses h page c r) (zip (c # cs) rs)"
  proof -
    from that rs have nr: "\<not> reuses h page c r"
      and rest: "list_all (\<lambda>(c, r). \<not> reuses h page c r) (zip cs rs1)"
      by simp_all
    from e that nr have "m_BlockLookup h1 page = None" by simp
    moreover have "list_all (\<lambda>(c, r). \<not> reuses h1 page c r) (zip cs rs1)"
      using rest by (simp add: reuses_cong [OF b])
    ultimately show ?thesis using ih by blast
  qed
  with ih e show ?case by auto
qed

lemma init_heap_region:
  assumes "init_heap committed rng pg = Inr (Some h)"
  shows "m_BaseAddress h = u64 (rng + kPageSize * bookkeeping_pages pg)
       \<and> m_HeapPageCount h = u32 pg \<and> 0 < u32 pg \<and> m_ReentrancyGuard h = 0"
  using assms
  by (auto simp: init_heap_def AllocBlockInfo_def upd_block_def Let_def
           split: option.splits if_splits sum.splits cong: let_weak_cong)

lemma DebugHeapInit_region:
  assumes sp: "in_address_space os_result mem" and init: "DebugHeapInit os_result mem = Inr (Some h)"
  shows "region_ok h \<and> m_ReentrancyGuard h = 0"
proof -
  let ?pg = "u64 mem div kPageSize"
  from init obtain committed where os: "os_result \<noteq> 0"
    and ih: "init_heap committed os_result ?pg = Inr (Some h)"
    by (auto simp: DebugHeapInit_def VmAllocate_def Let_def split: sum.splits if_splits)
  from init_heap_region [OF ih]
  have base: "m_BaseAddress h = u64 (os_result + kPageSize * bookkeeping_pages ?pg)"
    and P: "m_HeapPageCount h = u32 ?pg" and pos: "0 < u32 ?pg" and g: "m_ReentrancyGuard h = 0"
    by simp_all
  from sp have top: "os_result + kPageSize * bookkeeping_pages ?pg + ?pg * kPageSize \<le> 2 ^ 64"
    by (simp add: in_address_space_def algebra_simps)
  have le: "u32 ?pg \<le> ?pg" by (rule u32_le)
  with pos have "0 < ?pg" by simp
  then have "kPageSize \<le> ?pg * kPageSize" by simp
  with top have "os_result + kPageSize * bookkeeping_pages ?pg < 2 ^ 64"
    by (simp add: kPageSize_def)
  then have b: "m_BaseAddress h = os_result + kPageSize * bookkeeping_pages ?pg"
    unfolding base by (rule u64_id)
  from le have "u32 ?pg * kPageSize \<le> ?pg * kPageSize" by (rule mult_le_mono1)
  with top have "m_BaseAddress h + m_HeapPageCount h * kPageSize \<le> 2 ^ 64"
    unfolding b P by linarith
  moreover have "0 < m_BaseAddress h" using os by (simp add: b)
  moreover have "m_HeapPageCount h < 2 ^ 32" by (simp add: P u32_def)
  ultimately show ?thesis using g by (simp add: region_ok_def)
qed

lemma run_from_init_region:
  assumes "in_address_space os_result mem" and "run_from_init os_result mem cs = Inr (h, rs)"
  shows "region_ok h \<and> m_ReentrancyGuard h = 0"
proof -
  from assms(2) obtain h0 where init: "DebugHeapInit os_result mem = Inr (Some h0)"
    and rn: "run h0 cs = Inr (h, rs)"
    by (auto simp: run_from_init_def split: sum.splits option.splits list.splits)
  from DebugHeapInit_region [OF assms(1) init] run_effect [OF _ rn] show ?thesis by blast
qed

lemma free_null_entry:
  assumes "m_ReentrancyGuard h = 0" and "page_index_of h p < m_HeapPageCount h"
    and "m_BlockLookup h (page_index_of h p) = None"
  shows "DebugHeapFree h p = Inl (AssertFailed DoubleFree)"
  using assms
  by (simp add: DebugHeapFree_def DEBUG_THREAD_GUARD_ENTER_def page_index_of_def u32_def Let_def)

section \<open>The invariant holds after every call\<close>

lemma wf_region_ok: "wf_heap h i bs \<Longrightarrow> region_ok h"
proof -
  assume wf: "wf_heap h i bs"
  then have "m_HeapPageCount h < 2 ^ 31" by (simp add: wf_heap_def blocks_ok_def)
  moreover have "(2 :: nat) ^ 31 < 2 ^ 32" by simp
  ultimately have "m_HeapPageCount h < 2 ^ 32" by (rule less_trans)
  with wf show ?thesis by (simp add: wf_heap_def vm_ok_def region_ok_def)
qed

lemma not_in_mapped:
  assumes "list_all (\<lambda>(lo, hi). hi \<le> N) mapped" and "K < ptr" and "K \<le> (N :: nat)"
  shows "\<not> in_mapped mapped ptr (N - K)"
proof
  assume "in_mapped mapped ptr (N - K)"
  then obtain lo hi where "(lo, hi) \<in> set mapped" "ptr + (N - K) \<le> hi"
    by (auto simp: in_mapped_def list_ex_iff)
  moreover from this(1) assms(1) have "hi \<le> N" by (auto simp: list_all_iff)
  ultimately show False using assms(2,3) by simp
qed

lemma finish_alloc_zero:
  assumes vm: "list_all (\<lambda>(lo, hi). hi \<le> 2 ^ 64) (vm_mapped h)" and ptr: "kPageSize < ptr"
  shows "finish_alloc h ptr s 0 a = Inl (AssertFailed FailedToCommitMemory)"
proof -
  have ub: "u64 (u64 (0 + 2 ^ 64 - 1) * kPageSize) = 2 ^ 64 - kPageSize"
    by (simp add: int_defs)
  have "kPageSize \<le> (2 :: nat) ^ 64" by (simp add: kPageSize_def)
  from not_in_mapped [OF vm ptr this]
  have "\<not> in_mapped (vm_mapped h) ptr (2 ^ 64 - kPageSize)" .
  moreover have "(2 :: nat) ^ 64 - kPageSize \<noteq> 0" by (simp add: kPageSize_def)
  ultimately have "VmCommit h ptr (2 ^ 64 - kPageSize) = Inl (AssertFailed FailedToCommitMemory)"
    by (simp add: VmCommit_def)
  then show ?thesis
    unfolding finish_alloc_def FinalizeAlloc_def Let_def ub by simp
qed

text \<open>A call of \<open>AllocFromFreeList\<close> that returns leaves the heap well-formed, or it was asked
  for no page at all and has found a block: then \<open>FinalizeAlloc\<close> cannot commit.\<close>

lemma alloc_step_wf:
  assumes wf: "wf_heap h i bs" and al: "AllocFromFreeList h req = Inr (h2, ptr)"
  shows "(\<exists>bs'. wf_heap h2 i bs')
       \<or> (ptr \<noteq> 0 \<and> finish_alloc h2 ptr s req a = Inl (AssertFailed FailedToCommitMemory))"
proof (cases "0 < req")
  case True
  from AllocFromFreeList_wf [OF wf al True] show ?thesis by blast
next
  case False
  then have req: "req = 0" by simp
  show ?thesis
  proof (cases "h2 = h \<and> ptr = 0")
    case True
    with wf show ?thesis by blast
  next
    case False
    with AllocFromFreeList_lookup [OF al] obtain b idx where
      e: "idx < m_HeapPageCount h" "ptr = u64 (m_BaseAddress h + idx * kPageSize)"
        "vm_mapped h2 = vm_mapped h"
      by blast
    note ok = wf_region_ok [OF wf]
    have z: "(0 :: nat) < kPageSize" by (simp add: kPageSize_def)
    note up = user_pointer [OF ok e(1) z]
    from up(1) have p: "ptr = m_BaseAddress h + idx * kPageSize"
      unfolding e(2) by (simp add: u64_def)
    from wf have "kPageSize < m_BaseAddress h" and "list_all (\<lambda>(lo, hi). hi \<le> 2 ^ 64) (vm_mapped h)"
      by (simp_all add: wf_heap_def vm_ok_def)
    then have "kPageSize < ptr" "list_all (\<lambda>(lo, hi). hi \<le> 2 ^ 64) (vm_mapped h2)"
      by (simp_all add: p e(3))
    from finish_alloc_zero [OF this(2,1)] this(1) show ?thesis by (simp add: req)
  qed
qed

lemma DebugHeapAllocate_inv:
  assumes inv: "heap_inv h" and al: "DebugHeapAllocate h s a = Inr (h', r)"
  shows "heap_inv h'"
proof -
  let ?req = "page_req_of s"
  from inv obtain bs where wf: "wf_heap h 0 bs" by (auto simp: heap_inv_def)
  from al obtain h1 h2 ptr where enter: "DEBUG_THREAD_GUARD_ENTER h = Inr h1"
    and a1: "AllocFromFreeList h1 ?req = Inr (h2, ptr)"
    and rest: "(if ptr \<noteq> 0 then finish_alloc h2 ptr s ?req a
                else alloc_after_flush h2 s ?req a) = Inr (h', r)"
    by (auto simp: DebugHeapAllocate_def Let_def split: sum.splits)
  have h1: "h1 = h\<lparr>m_ReentrancyGuard := 1\<rparr>" by (rule guard_enter_Inr [OF enter])
  from wf have wf1: "wf_heap h1 0 bs" by (simp add: h1)
  have fin: "heap_inv h'" if "wf_heap g 0 cs" "finish_alloc g q s ?req a = Inr (h', r)" for g cs q
  proof -
    from finish_alloc_effect [OF that(2)] obtain f where
      "h' = g\<lparr>vm_access := f, m_ReentrancyGuard := 0\<rparr>" by blast
    with that(1) show ?thesis by (auto simp: heap_inv_def)
  qed
  note st1 = alloc_step_wf [OF wf1 a1, of s a]
  show ?thesis
  proof (cases "ptr \<noteq> 0")
    case True
    with rest have fa: "finish_alloc h2 ptr s ?req a = Inr (h', r)" by simp
    with st1 obtain bs2 where "wf_heap h2 0 bs2" by auto
    from fin [OF this fa] show ?thesis .
  next
    case False
    with st1 obtain bs2 where wf2: "wf_heap h2 0 bs2" by auto
    from False rest have "alloc_after_flush h2 s ?req a = Inr (h', r)" by simp
    then obtain hf h3 ptr' where fl: "FlushPendingFrees h2 = Inr hf"
      and a2: "AllocFromFreeList hf ?req = Inr (h3, ptr')"
      and rest2: "(if ptr' \<noteq> 0 then finish_alloc h3 ptr' s ?req a
                   else (case DEBUG_THREAD_GUARD_LEAVE h3 of
                           Inl e \<Rightarrow> Inl e
                         | Inr heap3 \<Rightarrow> Inr (heap3, 0))) = Inr (h', r)"
      by (auto simp: alloc_after_flush_def split: sum.splits)
    from FlushPendingFrees_wf [OF wf2 fl] obtain bsf where wff: "wf_heap hf 0 bsf" by blast
    note st2 = alloc_step_wf [OF wff a2, of s a]
    show ?thesis
    proof (cases "ptr' \<noteq> 0")
      case True
      with rest2 have fa: "finish_alloc h3 ptr' s ?req a = Inr (h', r)" by simp
      with st2 obtain bs3 where "wf_heap h3 0 bs3" by auto
      from fin [OF this fa] show ?thesis .
    next
      case False
      with st2 obtain bs3 where wf3: "wf_heap h3 0 bs3" by auto
      from False rest2 obtain h4 where "DEBUG_THREAD_GUARD_LEAVE h3 = Inr h4" "h' = h4"
        by (auto split: sum.splits)
      with guard_leave_Inr [of h3 h4] have "h' = h3\<lparr>m_ReentrancyGuard := 0\<rparr>" by simp
      with wf3 show ?thesis by (auto simp: heap_inv_def)
    qed
  qed
qed

lemma query_inv:
  assumes "heap_inv h" and "DebugHeapGetAllocSize h p = Inr (h', r) \<or> DebugHeapOwns h p = Inr (h', r)"
  shows "heap_inv h'"
  using assms(1) query_effect [OF assms(2)] by (auto simp: heap_inv_def)

lemma free_block_effect:
  assumes "free_block h pi b = Inr h'"
  shows "m_Allocated (m_Blocks h b) \<and> \<not> m_PendingFree (m_Blocks h b)
       \<and> (\<exists>f. h' = h\<lparr>m_Blocks := (m_Blocks h)(b := (m_Blocks h b)\<lparr>m_Allocated := False,
                                                                  m_PendingFree := True\<rparr>),
                      m_BlockLookup := (m_BlockLookup h)(pi := None),
                      m_PendingList := (m_PendingList h)(m_PendingListSize h := Some b),
                      m_PendingListSize := u32 (m_PendingListSize h + 1),
                      vm_access := f\<rparr>)"
  using assms
  by (auto simp: free_block_def Let_def upd_block_def split: if_splits sum.splits
           dest!: VmDecommit_Inr cong: let_weak_cong)

lemma free_block_wf:
  assumes wf: "wf_heap h 0 bs" and lk: "m_BlockLookup h pi = Some b"
    and fb: "free_block h pi b = Inr h'"
  shows "wf_heap h' 0 bs"
proof -
  let ?B = "m_Blocks h" and ?M = "m_MaxAllocs h" and ?P = "m_HeapPageCount h"
  let ?n = "m_PendingListSize h"
  let ?B' = "?B(b := (?B b)\<lparr>m_Allocated := False, m_PendingFree := True\<rparr>)"
  from wf have ok: "blocks_ok ?B ?M ?P bs" and ptrs: "ptrs_ok h" and pend: "pending_ok h 0 bs"
    and vm: "vm_ok h"
    by (simp_all add: wf_heap_def)
  from free_block_effect [OF fb] obtain f where
    fl: "m_Allocated (?B b)" "\<not> m_PendingFree (?B b)"
    and h': "h' = h\<lparr>m_Blocks := ?B',
                      m_BlockLookup := (m_BlockLookup h)(pi := None),
                      m_PendingList := (m_PendingList h)(?n := Some b),
                      m_PendingListSize := u32 (?n + 1),
                      vm_access := f\<rparr>"
    by blast
  from ptrs lk have bM: "b < ?M" unfolding ptrs_ok_def by blast
  from fl have "\<not> (m_Allocated (?B b) \<and> m_PendingFree (?B b))" by simp
  from blocks_ok_member [OF ok bM this] have bin: "b \<in> set bs" .
  have ok': "blocks_ok ?B' ?M ?P bs"
  proof (rule blocks_ok_flags [OF ok])
    fix r assume "r \<in> set bs"
    with ok have "\<not> (m_Allocated (?B r) \<and> m_PendingFree (?B r))" by (simp add: blocks_ok_def)
    then show "\<not> (m_Allocated (?B' r) \<and> m_PendingFree (?B' r))" by simp
  next
    fix r assume "r \<notin> set bs"
    with bin have "r \<noteq> b" by auto
    then show "m_Allocated (?B' r) = m_Allocated (?B r) \<and> m_PendingFree (?B' r) = m_PendingFree (?B r)"
      by simp
  qed simp_all
  have p': "ptrs_ok h'"
    using ptrs unfolding ptrs_ok_def h' by auto
  have le: "u32 (?n + 1) \<le> ?n + 1" by (rule u32_le)
  have old: "\<exists>c. m_PendingList h j = Some c \<and> c \<in> set bs \<and> c \<noteq> b
                \<and> \<not> m_Allocated (?B c) \<and> m_PendingFree (?B c)" if "j < ?n" for j
  proof -
    from pend that obtain c where c: "m_PendingList h j = Some c" "c \<in> set bs"
      "\<not> m_Allocated (?B c)" "m_PendingFree (?B c)"
      unfolding pending_ok_def by auto
    with fl have "c \<noteq> b" by auto
    with c show ?thesis by blast
  qed
  have pend': "pending_ok h' 0 bs"
    unfolding pending_ok_def
  proof (intro conjI allI impI)
    fix j assume "0 \<le> j \<and> j < m_PendingListSize h'"
    with le have j: "j \<le> ?n" by (simp add: h')
    show "\<exists>c. m_PendingList h' j = Some c \<and> c \<in> set bs
             \<and> \<not> m_Allocated (m_Blocks h' c) \<and> m_PendingFree (m_Blocks h' c)"
    proof (cases "j = ?n")
      case True
      with bin show ?thesis by (simp add: h')
    next
      case False
      with j have "j < ?n" by simp
      from old [OF this] False show ?thesis by (auto simp: h')
    qed
  next
    fix j k assume "0 \<le> j \<and> j < k \<and> k < m_PendingListSize h'"
    with le have jk: "j < k" "k \<le> ?n" by (simp_all add: h')
    then have j: "j < ?n" by simp
    show "m_PendingList h' j \<noteq> m_PendingList h' k"
    proof (cases "k = ?n")
      case True
      from old [OF j] j True show ?thesis by (auto simp: h')
    next
      case False
      with jk have "0 \<le> j \<and> j < k \<and> k < ?n" by simp
      with pend have "m_PendingList h j \<noteq> m_PendingList h k" unfolding pending_ok_def by blast
      with j False show ?thesis by (simp add: h')
    qed
  qed
  have vm': "vm_ok h'" using vm by (simp add: vm_ok_def h')
  from ok' p' pend' vm' show ?thesis by (simp add: wf_heap_def h')
qed

lemma DebugHeapFree_inv:
  assumes inv: "heap_inv h" and fr: "DebugHeapFree h p = Inr h'"
  shows "heap_inv h'"
proof -
  from inv obtain bs where wf: "wf_heap h 0 bs" by (auto simp: heap_inv_def)
  from fr obtain h1 block h2 where
    enter: "DEBUG_THREAD_GUARD_ENTER h = Inr h1"
    and lookup: "m_BlockLookup h1 (page_index_of h1 p) = Some block"
    and fb: "free_block h1 (page_index_of h1 p) block = Inr h2"
    and leave: "DEBUG_THREAD_GUARD_LEAVE h2 = Inr h'"
    by (auto simp: DebugHeapFree_def Let_def split: sum.splits if_splits option.splits)
  have h1: "h1 = h\<lparr>m_ReentrancyGuard := 1\<rparr>" by (rule guard_enter_Inr [OF enter])
  from wf have wf1: "wf_heap h1 0 bs" by (simp add: h1)
  from free_block_wf [OF wf1 lookup fb] have "wf_heap h2 0 bs" .
  with guard_leave_Inr [OF leave] show ?thesis by (auto simp: heap_inv_def)
qed

lemma exec_inv:
  assumes "heap_inv h" and "exec h c = Inr (h', r)"
  shows "heap_inv h'"
proof (cases c)
  case (Allocate s a)
  with assms DebugHeapAllocate_inv show ?thesis by simp
next
  case (Free p)
  with assms(2) have "DebugHeapFree h p = Inr h'" by (auto split: sum.splits)
  from DebugHeapFree_inv [OF assms(1) this] show ?thesis .
next
  case (GetAllocSize p)
  with assms query_inv [of h p h' r] show ?thesis by simp
next
  case (Owns p)
  with assms query_inv [of h p h' r] show ?thesis by simp
qed

lemma run_inv:
  assumes "heap_inv h" and "run h cs = Inr (h', rs)"
  shows "heap_inv h'"
  using assms
proof (induction cs arbitrary: h rs)
  case Nil
  then show ?case by simp
next
  case (Cons c cs)
  from Cons.prems(2) obtain h1 r rs1 where ex: "exec h c = Inr (h1, r)"
    and rn: "run h1 cs = Inr (h', rs1)"
    by (auto split: sum.splits)
  from Cons.IH [OF exec_inv [OF Cons.prems(1) ex] rn] show ?case .
qed

lemma heap_inv_tiling:
  assumes "heap_inv h"
  shows "tiling h"
proof -
  from assms obtain bs where wf: "wf_heap h 0 bs" by (auto simp: heap_inv_def)
  let ?B = "m_Blocks h"
  from wf have ok: "blocks_ok ?B (m_MaxAllocs h) (m_HeapPageCount h) bs" by (simp add: wf_heap_def)
  then have s: "seg ?B (Some 0) 0 bs None (m_HeapPageCount h)" and ne: "bs \<noteq> []"
    and lt: "\<forall>b \<in> set bs. b < m_MaxAllocs h"
    by (simp_all add: blocks_ok_def)
  from distinct_length_le [OF blocks_ok_distinct [OF ok] lt] have "length bs \<le> m_MaxAllocs h" .
  from seg_walk [OF s this] seg_tiles [OF s] ne show ?thesis
    by (simp add: tiling_def)
qed

lemma init_heap_effect:
  assumes "init_heap committed rng pg = Inr (Some h)" and "m_Blocks committed 0 = zero_block"
  shows "0 < m_MaxAllocs h" "0 < m_HeapPageCount h"
    "m_MaxAllocs h = u32 (pg div 2)" "m_HeapPageCount h = u32 pg"
    "m_BaseAddress h = u64 (rng + kPageSize * bookkeeping_pages pg)"
    "m_FreeListSize h = 1" "m_PendingListSize h = 0" "m_ReentrancyGuard h = 0"
    "m_FreeList h 0 = Some 0" "m_BlockLookup h = m_BlockLookup committed"
    "vm_mapped h = vm_mapped committed"
    "m_FirstUnusedBlockInfo h = (if 1 < m_MaxAllocs h then Some 1 else None)"
    "m_Blocks h 0 = \<lparr>m_Allocated = False, m_PageCount = u31 (u32 pg), m_PendingFree = False,
                      m_PageIndex = 0, m_Prev = None, m_Next = None\<rparr>"
    "\<forall>r. 0 < r \<and> r < m_MaxAllocs h \<longrightarrow>
        m_Allocated (m_Blocks h r) \<and> m_PendingFree (m_Blocks h r)
        \<and> m_Next (m_Blocks h r) = (if r + 1 < m_MaxAllocs h then Some (r + 1) else None)"
  using assms
  by (auto simp: init_heap_def AllocBlockInfo_def upd_block_def init_blocks_eq zero_block_def Let_def
           split: if_splits cong: let_weak_cong)

lemma u64_le: "u64 n \<le> n"
  by (simp add: u64_def)

lemma bookkeeping_pages_pos:
  assumes "pg < 2 ^ 31"
  shows "0 < bookkeeping_pages pg"
proof -
  have p: "(2 :: nat) ^ 31 = 2147483648" "(2 :: nat) ^ 64 = 18446744073709551616" by simp_all
  from assms have pg: "pg < 2147483648" by (simp add: p)
  let ?a = "sizeof_DebugHeap + 3 * pg * sizeof_ptr + sizeof_DebugBlockInfo * pg"
  have a: "?a = 80 + 48 * pg"
    by (simp add: sizeof_DebugHeap_def sizeof_ptr_def sizeof_DebugBlockInfo_def)
  from pg have "80 + 48 * pg < 2 ^ 64" unfolding p by linarith
  then have 1: "u64 ?a = 80 + 48 * pg" unfolding a by (rule u64_id)
  from pg have "80 + 48 * pg + kPageSize - 1 < 2 ^ 64" unfolding p kPageSize_def by linarith
  then have 2: "u64 (80 + 48 * pg + kPageSize - 1) = 80 + 48 * pg + kPageSize - 1" by (rule u64_id)
  have "kPageSize \<le> 80 + 48 * pg + kPageSize - 1" by simp
  then have "1 \<le> (80 + 48 * pg + kPageSize - 1) div kPageSize"
    by (simp add: kPageSize_def)
  then show ?thesis
    unfolding bookkeeping_pages_def 1 2 by simp
qed

lemma DebugHeapInit_inv:
  assumes sp: "in_address_space os_result mem" and small: "u64 mem div kPageSize < 2 ^ 31"
    and init: "DebugHeapInit os_result mem = Inr (Some h)"
  shows "heap_inv h"
proof -
  let ?pg = "u64 mem div kPageSize"
  let ?B = "m_Blocks h" and ?M = "m_MaxAllocs h" and ?P = "m_HeapPageCount h"
  from init obtain committed where os: "os_result \<noteq> 0"
    and ih: "init_heap committed os_result ?pg = Inr (Some h)"
    and cm: "VmCommit (fresh_heap os_result [(os_result, os_result + total_bytes mem)]) os_result
               (u64 (bookkeeping_pages ?pg * kPageSize)) = Inr committed"
    by (auto simp: DebugHeapInit_def VmAllocate_def Let_def split: sum.splits if_splits)
  from VmCommit_Inr [OF cm] obtain f where
    c: "committed = (fresh_heap os_result [(os_result, os_result + total_bytes mem)])\<lparr>vm_access := f\<rparr>"
    by blast
  have c0: "m_Blocks committed 0 = zero_block" "m_BlockLookup committed = (\<lambda>i. None)"
    "vm_mapped committed = [(os_result, os_result + total_bytes mem)]"
    by (simp_all add: c fresh_heap_def)
  note e = init_heap_effect [OF ih c0(1)]
  have p31: "(2 :: nat) ^ 31 < 2 ^ 32" by simp
  from small have P: "?P = ?pg" unfolding e(4) by (intro u32_id less_trans [OF _ p31])
  with small have Plt: "?P < 2 ^ 31" by simp
  have root: "m_PageIndex (?B 0) = 0" "m_PageCount (?B 0) = ?P" "m_Next (?B 0) = None"
    "m_Prev (?B 0) = None" "\<not> m_Allocated (?B 0)" "\<not> m_PendingFree (?B 0)"
    using Plt by (simp_all add: e(13) e(4) [symmetric] u31_id)
  have ok: "blocks_ok ?B ?M ?P [0]"
    unfolding blocks_ok_def using root e(1,2) Plt e(14) by auto
  have ptrs: "ptrs_ok h"
    unfolding ptrs_ok_def using e(1) by (auto simp: e(12) e(6) e(9) e(10) c0(2))
  have pend: "pending_ok h 0 [0]" by (simp add: pending_ok_def e(7))
  have vm: "vm_ok h"
  proof -
    from sp have top: "os_result + (bookkeeping_pages ?pg + ?pg) * kPageSize \<le> 2 ^ 64"
      by (simp add: in_address_space_def)
    have "total_bytes mem \<le> (bookkeeping_pages ?pg + ?pg) * kPageSize"
      unfolding total_bytes_def Let_def
      by (rule order_trans [OF u64_le]) (rule mult_le_mono1 [OF u64_le])
    with top have hi: "os_result + total_bytes mem \<le> 2 ^ 64" by linarith
    from e(2) P have "0 < ?pg" by simp
    then have "kPageSize \<le> ?pg * kPageSize" by simp
    with top have "os_result + kPageSize * bookkeeping_pages ?pg < 2 ^ 64"
      by (simp add: kPageSize_def algebra_simps)
    then have b: "m_BaseAddress h = os_result + kPageSize * bookkeeping_pages ?pg"
      unfolding e(5) by (rule u64_id)
    from bookkeeping_pages_pos [OF small] have "kPageSize \<le> kPageSize * bookkeeping_pages ?pg"
      by simp
    with os have lo: "kPageSize < m_BaseAddress h" unfolding b by linarith
    from top have "m_BaseAddress h + ?P * kPageSize \<le> 2 ^ 64"
      unfolding b P by (simp add: algebra_simps)
    with hi lo show ?thesis by (simp add: vm_ok_def e(11) c0(3))
  qed
  from ok ptrs pend vm have "wf_heap h 0 [0]" by (simp add: wf_heap_def)
  with e(8) show ?thesis by (auto simp: heap_inv_def)
qed

lemma run_from_init_inv:
  assumes "in_address_space os_result mem" and "u64 mem div kPageSize < 2 ^ 31"
    and "run_from_init os_result mem cs = Inr (h, rs)"
  shows "heap_inv h"
proof -
  from assms(3) obtain h0 where init: "DebugHeapInit os_result mem = Inr (Some h0)"
    and rn: "run h0 cs = Inr (h, rs)"
    by (auto simp: run_from_init_def split: sum.splits option.splits list.splits)
  from run_inv [OF DebugHeapInit_inv [OF assms(1,2) init] rn] show ?thesis .
qed

lemma walk_pos:
  "0 < fuel \<Longrightarrow>
   walk B fuel (Some b) =
     (case walk B (fuel - 1) (m_Next (B b)) of
        None \<Rightarrow> None
      | Some xs \<Rightarrow> Some ((m_PageIndex (B b), m_PageCount (B b)) # xs))"
  by (cases fuel) simp_all

lemma pages_small:
  assumes "mem < 2 ^ 43"
  shows "u64 mem div kPageSize < 2 ^ 31"
proof -
  have "u64 mem \<le> mem" by (rule u64_le)
  with assms have "u64 mem < 2 ^ 43" by simp
  also have "(2 :: nat) ^ 43 = 2 ^ 31 * kPageSize" by (simp add: kPageSize_def)
  finally show ?thesis by (simp add: less_mult_imp_div_less)
qed

section \<open>When the free-list search finds nothing\<close>

lemma no_fit_iff: "no_fit h req = (\<forall>j < m_FreeListSize h. \<not> fits h req j)"
  by (auto simp: no_fit_def list_all_iff)

lemma fits_guard [simp]: "fits (h\<lparr>m_ReentrancyGuard := g\<rparr>) req j = fits h req j"
  by (simp add: fits_def split: option.splits)

lemma no_fit_guard [simp]: "no_fit (h\<lparr>m_ReentrancyGuard := g\<rparr>) req = no_fit h req"
  by (simp add: no_fit_iff)





section \<open>What the flush leaves alone\<close>

lemma untouched_refl [simp]: "untouched h h q"
  by (simp add: untouched_def)







section \<open>The claims\<close>

text \<open>
  C1. The claim: \<open>DebugHeapDestroy\<close> hands back the whole reservation, bookkeeping pages and
  user pages. The code passes \<open>m_PageCount * kPageSize\<close>, the size of the user pages alone.
  For the heap of demo.c (2 MiB, at address 65536): \<open>DebugHeapInit\<close> reserves 2125824
  bytes (519 pages), \<open>DebugHeapDestroy\<close> unmaps 2097152 bytes (512 pages), and the last
  seven pages of the reservation stay mapped.
\<close>

theorem destroy_leaves_pages_mapped:
  "(case DebugHeapInit 65536 (2 * 1024 * 1024) of
      Inr (Some heap) \<Rightarrow>
        vm_mapped heap = [(65536, 65536 + 2125824)] \<and> destroy_size heap = 2097152
        \<and> DebugHeapDestroy heap = Inr [(65536 + 2097152, 65536 + 2125824)]
    | _ \<Rightarrow> False)"
  by (simp add: int_defs vm_defs op_defs init_blocks_eq Let_def cong: let_weak_cong)

text \<open>
  C3. The claim: the pool of \<open>PageCount / 2\<close> block records never runs dry. On a heap of
  8 pages (a pool of 4 records) six calls bring all four records into use: two allocated
  blocks of 2 pages, each followed by a free block of 1 page that is too small to serve
  any request. The next \<open>DebugHeapAllocate\<close> finds a free block of 3 pages, needs a fifth
  record for its tail, and \<open>AllocBlockInfo\<close> reads through the null head of the list of
  unused records.
\<close>

theorem pool_runs_dry:
  "(case run_from_init 65536 32768
           [Allocate 4097 1, Allocate 4097 1, Allocate 1 1, Free 86015, Allocate 1 1, Free 73727] of
      Inr (heap, rs) \<Rightarrow>
        rs = [73727, 86015, 98303, 0, 86015, 0] \<and> m_MaxAllocs heap = 4
        \<and> m_FirstUnusedBlockInfo heap = None
        \<and> exec heap (Allocate 1 1) = Inl NullDeref
    | Inl e \<Rightarrow> False)"
  by (simp add: int_defs vm_defs op_defs loop_simps init_blocks_eq Let_def cong: let_weak_cong)

text \<open>
  C6. The claim: the size that \<open>DebugHeapGetAllocSize\<close> reports for a pointer returned by
  \<open>DebugHeapAllocate(heap, s, a)\<close> is at least \<open>s\<close>. The page requirement is computed in 32
  bits: for \<open>s = 2 ^ 44\<close> it is \<open>1 + (uint32_t) 2 ^ 32 = 1\<close>, the request is served from a
  heap of 8 pages by a block of one page, the guard page alone, and the size reported for
  the pointer is 0.
\<close>

theorem huge_request_gets_empty_block:
  "(case run_from_init 65536 32768 [Allocate (2 ^ 44) 1, GetAllocSize 69632] of
      Inr (heap, rs) \<Rightarrow> rs = [69632, 0] \<and> m_PageCount (m_Blocks heap 0) = 1
    | Inl e \<Rightarrow> False)"
  by (simp add: int_defs vm_defs op_defs loop_simps init_blocks_eq Let_def cong: let_weak_cong)

text \<open>
  C7. The claim: the pointer returned for alignment \<open>a\<close>, a power of two, is divisible by
  \<open>a\<close>. The offset inside the page is a multiple of \<open>a\<close>, but the page itself is aligned to
  4096 only: with the user region at 69632 (17 pages from 0), the request for one byte
  aligned to 8192 returns 69632, which is 4096 modulo 8192.
\<close>

theorem alignment_8192_not_met:
  "(case run_from_init 65536 32768 [Allocate 1 8192] of
      Inr (heap, rs) \<Rightarrow> rs = [69632] \<and> (69632 :: nat) mod 8192 = 4096
    | Inl e \<Rightarrow> False)"
  by (simp add: int_defs vm_defs op_defs loop_simps init_blocks_eq Let_def cong: let_weak_cong)

text \<open>
  C5. The free-list search is best-fit with the lowest index winning a tie: when
  \<open>AllocFromFreeList\<close> returns a block for a request of \<open>page_req\<close> pages, the block stood
  at an index \<open>i\<close> of the free-list that is \<open>best_fit\<close>, and it is this block that is
  carved: it is marked \<open>Allocated\<close>, entered in the lookup table at its page index, and its
  address is the one returned.
\<close>

theorem best_fit_lowest_index:
  assumes "AllocFromFreeList heap page_req = Inr (heap', ptr)" and "ptr \<noteq> 0"
  shows "\<exists>i b. best_fit heap page_req i \<and> m_FreeList heap i = Some b
            \<and> m_Allocated (m_Blocks heap' b)
            \<and> m_BlockLookup heap' (m_PageIndex (m_Blocks heap b)) = Some b
            \<and> ptr = u64 (m_BaseAddress heap + m_PageIndex (m_Blocks heap b) * kPageSize)"
proof -
  obtain bb bs bi where
    scan: "scan_free_list heap page_req 0 (m_FreeListSize heap) (None, 2 ^ 32 - 1, 0) = Inr (bb, bs, bi)"
  proof (cases "scan_free_list heap page_req 0 (m_FreeListSize heap) (None, 2 ^ 32 - 1, 0)")
    case (Inl e)
    with assms(1) show ?thesis by (simp add: AllocFromFreeList_def)
  next
    case (Inr x)
    with that show ?thesis by (cases x) auto
  qed
  have "scan_inv heap page_req 0 (None, 2 ^ 32 - 1, 0)"
    by (simp add: scan_inv_def)
  from scan_free_list_inv [OF scan _ this]
  have inv: "scan_inv heap page_req (m_FreeListSize heap) (bb, bs, bi)" by simp
  obtain b where bb: "bb = Some b"
  proof (cases bb)
    case None
    with assms scan show ?thesis by (simp add: AllocFromFreeList_def)
  next
    case (Some b)
    with that show ?thesis by simp
  qed
  from inv bb have b: "bi < m_FreeListSize heap" "m_FreeList heap bi = Some b"
      "m_PageCount (m_Blocks heap b) = bs" "page_req \<le> bs" "\<not> m_Allocated (m_Blocks heap b)"
    and least: "\<forall>j < m_FreeListSize heap. fits heap page_req j \<longrightarrow>
                  bs \<le> count_at heap j \<and> (count_at heap j = bs \<longrightarrow> bi \<le> j)"
    by (auto simp: scan_inv_def)
  have bf: "best_fit heap page_req bi"
    using b least by (simp add: best_fit_def fits_def count_at_def)
  let ?h1 = "take_off_free_list heap bi"
  have h1: "m_Blocks ?h1 = m_Blocks heap" "m_BaseAddress ?h1 = m_BaseAddress heap"
    "m_BlockLookup ?h1 = m_BlockLookup heap"
    by (simp_all add: take_off_free_list_def Let_def)
  define unused where "unused = u32 (u64 (bs + 2 ^ 64 - page_req))"
  have "(case (if 0 < unused then carve_tail ?h1 b unused page_req else Inr ?h1) of
           Inl e \<Rightarrow> Inl e
         | Inr heap2 \<Rightarrow> mark_allocated heap2 b) = Inr (heap', ptr)"
    using assms(1) unfolding AllocFromFreeList_def scan bb unused_def
    by (simp add: Let_def split: if_splits)
  then obtain h2 where
    carve: "(if 0 < unused then carve_tail ?h1 b unused page_req else Inr ?h1) = Inr h2"
    and mark: "mark_allocated h2 b = Inr (heap', ptr)"
    by (cases "if 0 < unused then carve_tail ?h1 b unused page_req else Inr ?h1") simp_all
  have h2: "m_PageIndex (m_Blocks h2 b) = m_PageIndex (m_Blocks heap b)
       \<and> m_BaseAddress h2 = m_BaseAddress heap \<and> m_BlockLookup h2 = m_BlockLookup heap"
  proof (cases "0 < unused")
    case True
    with carve have "carve_tail ?h1 b unused page_req = Inr h2"
      by simp
    from carve_tail_Inr [OF this] b h1 show ?thesis by simp
  next
    case False
    with carve h1 show ?thesis by auto
  qed
  from mark_allocated_Inr [OF mark] h2 bf b show ?thesis
    by auto
qed

text \<open>The witness: on a heap of 16 pages the free-list holds blocks of 8, 2 and 2 pages, in
  this order; a request for 2 pages passes over the first and takes the second.\<close>

theorem best_fit_lowest_index_witness:
  "(case run_from_init 65536 65536
           [Allocate 1 1, Allocate 1 1, Allocate 1 1, Allocate 1 1, Free 73727, Free 90111,
            Allocate (9 * 4096) 1] of
      Inr (heap, rs) \<Rightarrow>
        rs = [73727, 81919, 90111, 98303, 0, 0, 0]
        \<and> m_FreeListSize heap = 3 \<and> map (count_at heap) [0, 1, 2] = [8, 2, 2]
        \<and> (case AllocFromFreeList heap 2 of
              Inr (heap', ptr) \<Rightarrow>
                ptr = 69632 \<and> m_FreeList heap 1 = Some 0
                \<and> (\<exists>i b. best_fit heap 2 i \<and> m_FreeList heap i = Some b
                      \<and> m_Allocated (m_Blocks heap' b)
                      \<and> m_BlockLookup heap' (m_PageIndex (m_Blocks heap b)) = Some b
                      \<and> ptr = u64 (m_BaseAddress heap + m_PageIndex (m_Blocks heap b) * kPageSize))
            | Inl e \<Rightarrow> False)
    | Inl e \<Rightarrow> False)"
proof -
  have ev: "(case run_from_init 65536 65536
           [Allocate 1 1, Allocate 1 1, Allocate 1 1, Allocate 1 1, Free 73727, Free 90111,
            Allocate (9 * 4096) 1] of
      Inr (heap, rs) \<Rightarrow>
        rs = [73727, 81919, 90111, 98303, 0, 0, 0]
        \<and> m_FreeListSize heap = 3 \<and> map (count_at heap) [0, 1, 2] = [8, 2, 2]
        \<and> (case AllocFromFreeList heap 2 of
              Inr (heap', ptr) \<Rightarrow> ptr = 69632 \<and> m_FreeList heap 1 = Some 0
            | Inl e \<Rightarrow> False)
    | Inl e \<Rightarrow> False)"
    by (simp add: int_defs vm_defs op_defs loop_simps init_blocks_eq count_at_def Let_def
             cong: let_weak_cong)
  show ?thesis
  proof (cases "run_from_init 65536 65536
           [Allocate 1 1, Allocate 1 1, Allocate 1 1, Allocate 1 1, Free 73727, Free 90111,
            Allocate (9 * 4096) 1]")
    case (Inl e)
    with ev show ?thesis by simp
  next
    case (Inr x)
    obtain heap rs where x: "x = (heap, rs)" by (cases x)
    from ev Inr x have facts: "rs = [73727, 81919, 90111, 98303, 0, 0, 0]"
        "m_FreeListSize heap = 3" "map (count_at heap) [0, 1, 2] = [8, 2, 2]"
      and "case AllocFromFreeList heap 2 of
              Inr (heap', ptr) \<Rightarrow> ptr = 69632 \<and> m_FreeList heap 1 = Some 0
            | Inl e \<Rightarrow> False"
      by simp_all
    then obtain heap' where al: "AllocFromFreeList heap 2 = Inr (heap', 69632)"
      and fl: "m_FreeList heap 1 = Some 0"
      by (auto split: sum.splits)
    from best_fit_lowest_index [OF al] show ?thesis
      using Inr x facts al fl by simp
  qed
qed







text \<open>
  C8. The page count of a block is a bit-field of 31 bits. \<open>DebugHeapInit\<close> with
  \<open>2 ^ 43\<close> bytes makes a heap of \<open>2 ^ 31\<close> pages, and the page count of its only block is
  stored as 0: the block list does not tile the pages of the heap.
\<close>

theorem tiling_fails_at_2_31_pages:
  "in_address_space 65536 (2 ^ 43)
   \<and> (case DebugHeapInit 65536 (2 ^ 43) of
        Inr (Some heap) \<Rightarrow>
          m_HeapPageCount heap = 2 ^ 31
          \<and> m_Next (m_Blocks heap 0) = None
          \<and> m_PageIndex (m_Blocks heap 0) = 0
          \<and> m_PageCount (m_Blocks heap 0) = 0
          \<and> \<not> tiling heap
      | Inr None \<Rightarrow> False
      | Inl e \<Rightarrow> False)"
proof -
  have sp: "in_address_space 65536 (2 ^ 43)"
    by (simp add: in_address_space_def bookkeeping_pages_def int_defs)
  have ev: "(case DebugHeapInit 65536 (2 ^ 43) of
        Inr (Some heap) \<Rightarrow>
          m_HeapPageCount heap = 2 ^ 31
          \<and> m_MaxAllocs heap = 2 ^ 30
          \<and> m_Next (m_Blocks heap 0) = None
          \<and> m_PageIndex (m_Blocks heap 0) = 0
          \<and> m_PageCount (m_Blocks heap 0) = 0
      | Inr None \<Rightarrow> False
      | Inl e \<Rightarrow> False)"
    by (simp add: int_defs vm_defs op_defs loop_simps init_blocks_eq Let_def cong: let_weak_cong)
  have nt: "\<not> tiling heap"
    if "m_MaxAllocs heap = 2 ^ 30" "m_Next (m_Blocks heap 0) = None"
       "m_PageCount (m_Blocks heap 0) = 0" for heap
  proof -
    have "0 < m_MaxAllocs heap" by (simp add: that(1))
    then obtain k where k: "m_MaxAllocs heap = Suc k"
      by (cases "m_MaxAllocs heap") auto
    show ?thesis by (simp add: tiling_def k that(2,3))
  qed
  from ev nt sp show ?thesis
    by (auto split: sum.splits option.splits)
qed

text \<open>
  Below that size the block list does tile the heap. After \<open>DebugHeapInit\<close> with fewer than
  \<open>2 ^ 43\<close> bytes and after every sequence of calls of the public operations that return,
  following \<open>m_Next\<close> from the first block passes blocks that are non-empty, the first at
  page 0, each one starting where the one before it ends, the last one ending at the page
  count of the heap.
\<close>

theorem tiling_invariant:
  assumes "in_address_space os_result mem_size_bytes" and "mem_size_bytes < 2 ^ 43"
    and "run_from_init os_result mem_size_bytes cs = Inr (heap, rs)"
  shows "tiling heap"
  using assms(1) pages_small [OF assms(2)] assms(3)
  by (rule heap_inv_tiling [OF run_from_init_inv])

text \<open>The witness splits the root block three times, frees two neighbours, and merges
  them in the flush of the last allocation, which splits the merged block again.\<close>

theorem tiling_invariant_witness:
  "in_address_space 65536 32768 \<and> (32768 :: nat) < 2 ^ 43
   \<and> (case run_from_init 65536 32768
              [Allocate 4097 1, Allocate 1 1, Allocate 1 1, Free 73727, Free 86015, Allocate 8192 1] of
        Inr (heap, rs) \<Rightarrow>
          rs = [73727, 86015, 94207, 0, 0, 69632]
          \<and> walk (m_Blocks heap) (m_MaxAllocs heap) (Some 0) = Some [(0, 3), (3, 2), (5, 2), (7, 1)]
          \<and> tiling heap
      | Inl e \<Rightarrow> False)"
proof -
  have sp: "in_address_space 65536 32768"
    by (simp add: in_address_space_def bookkeeping_pages_def int_defs)
  have sm: "(32768 :: nat) < 2 ^ 43" by simp
  have ev: "(case run_from_init 65536 32768
              [Allocate 4097 1, Allocate 1 1, Allocate 1 1, Free 73727, Free 86015, Allocate 8192 1] of
        Inr (heap, rs) \<Rightarrow>
          rs = [73727, 86015, 94207, 0, 0, 69632]
          \<and> walk (m_Blocks heap) (m_MaxAllocs heap) (Some 0) = Some [(0, 3), (3, 2), (5, 2), (7, 1)]
      | Inl e \<Rightarrow> False)"
    by (simp add: int_defs vm_defs op_defs loop_simps init_blocks_eq walk_pos Let_def
             cong: let_weak_cong)
  show ?thesis
  proof (cases "run_from_init 65536 32768
              [Allocate 4097 1, Allocate 1 1, Allocate 1 1, Free 73727, Free 86015, Allocate 8192 1]")
    case (Inl e)
    with ev show ?thesis by simp
  next
    case (Inr x)
    obtain heap rs where x: "x = (heap, rs)" by (cases x)
    from tiling_invariant [OF sp sm Inr [unfolded x]] have "tiling heap" .
    with ev sp sm Inr x show ?thesis by simp
  qed
qed

text \<open>
  C9. Let \<open>p\<close> be a pointer that \<open>DebugHeapAllocate\<close> has returned, on a heap made by
  \<open>DebugHeapInit\<close> and any calls, and let \<open>DebugHeapFree(heap, p)\<close> return, at once or after
  other calls. The page of \<open>p\<close> is \<open>page_of heap p\<close>, the number of whole pages from the
  base of the user region to \<open>p\<close>. Then: the call returned only because the lookup entry
  of that page held a block that was \<open>Allocated\<close> and not \<open>PendingFree\<close>; after it that
  entry is null; a second \<open>DebugHeapFree(heap, p)\<close> trips the assertion "Double free",
  at once and after every sequence of calls in which no allocation returned a pointer into
  that page.
\<close>

theorem double_free_detected:
  assumes space: "in_address_space os_result mem_size_bytes"
    and reach: "run_from_init os_result mem_size_bytes cs = Inr (heap, rs)"
    and alloc: "DebugHeapAllocate heap user_size user_alignment = Inr (heap1, p)"
    and nonnull: "p \<noteq> 0"
    and between: "run heap1 cs1 = Inr (heap2, rs1)"
    and free: "DebugHeapFree heap2 p = Inr heap3"
  shows "(\<exists>block. m_BlockLookup heap2 (page_of heap p) = Some block
             \<and> m_Allocated (m_Blocks heap2 block) \<and> \<not> m_PendingFree (m_Blocks heap2 block))
       \<and> m_BlockLookup heap3 (page_of heap p) = None
       \<and> DebugHeapFree heap3 p = Inl (AssertFailed DoubleFree)
       \<and> (\<forall>cs2 heap4 rs2.
             run heap3 cs2 = Inr (heap4, rs2)
             \<and> list_all (\<lambda>(c, r). \<not> reuses heap (page_of heap p) c r) (zip cs2 rs2)
             \<longrightarrow> DebugHeapFree heap4 p = Inl (AssertFailed DoubleFree))"
proof -
  from run_from_init_region [OF space reach] have ok: "region_ok heap" by simp
  from DebugHeapAllocate_effect [OF ok alloc] nonnull obtain idx where
    idx: "idx < m_HeapPageCount heap"
    and p: "p = m_BaseAddress heap + idx * kPageSize + aligned_offset user_size user_alignment"
    and f1: "m_BaseAddress heap1 = m_BaseAddress heap" "m_HeapPageCount heap1 = m_HeapPageCount heap"
    by blast
  have page: "page_of heap p = idx"
    unfolding p by (rule user_pointer(3) [OF ok idx aligned_offset_less])
  have pi: "page_index_of h p = idx" if "m_BaseAddress h = m_BaseAddress heap" for h
  proof -
    have "page_index_of h p = page_index_of heap p" by (simp add: page_index_of_def that)
    also have "\<dots> = idx" unfolding p by (rule user_pointer(4) [OF ok idx aligned_offset_less])
    finally show ?thesis .
  qed
  have ok1: "region_ok heap1" using ok by (simp add: region_ok_def f1)
  from run_effect [OF ok1 between, of idx]
  have f2: "m_BaseAddress heap2 = m_BaseAddress heap" "m_HeapPageCount heap2 = m_HeapPageCount heap"
    by (simp_all add: f1)
  note fe = DebugHeapFree_effect [OF free]
  from fe have f3: "m_BaseAddress heap3 = m_BaseAddress heap"
    "m_HeapPageCount heap3 = m_HeapPageCount heap" "m_ReentrancyGuard heap3 = 0"
    by (simp_all add: f2)
  have ok3: "region_ok heap3" using ok by (simp add: region_ok_def f3)
  from fe have first: "\<exists>block. m_BlockLookup heap2 idx = Some block
             \<and> m_Allocated (m_Blocks heap2 block) \<and> \<not> m_PendingFree (m_Blocks heap2 block)"
    by (simp add: pi [OF f2(1)])
  from fe have null: "m_BlockLookup heap3 idx = None"
    by (simp add: pi [OF f2(1)])
  have again: "DebugHeapFree heap4 p = Inl (AssertFailed DoubleFree)"
    if "run heap3 cs2 = Inr (heap4, rs2)"
      and "list_all (\<lambda>(c, r). \<not> reuses heap idx c r) (zip cs2 rs2)" for cs2 heap4 rs2
  proof -
    from that(2) have "list_all (\<lambda>(c, r). \<not> reuses heap3 idx c r) (zip cs2 rs2)"
      by (simp add: reuses_cong [OF f3(1)])
    with run_effect [OF ok3 that(1), of idx] null f3
    have "m_BaseAddress heap4 = m_BaseAddress heap" "m_HeapPageCount heap4 = m_HeapPageCount heap"
      "m_ReentrancyGuard heap4 = 0" "m_BlockLookup heap4 idx = None"
      by simp_all
    with idx show ?thesis
      by (intro free_null_entry) (simp_all add: pi)
  qed
  from again [of "[]" heap3 "[]"] have "DebugHeapFree heap3 p = Inl (AssertFailed DoubleFree)"
    by simp
  with first null again show ?thesis unfolding page by blast
qed

text \<open>The witness allocates two pages first, so that \<open>p\<close> is in page 2; a query stands
  between the allocation and the first free, and an allocation (in page 4) between the two
  frees.\<close>

theorem double_free_detected_witness:
  "in_address_space 65536 32768
   \<and> (case run_from_init 65536 32768 [Allocate 1 1] of
        Inr (heap, rs) \<Rightarrow>
          (case DebugHeapAllocate heap 128 4 of
             Inr (heap1, p) \<Rightarrow>
               p = 81792 \<and> page_of heap p = 2
               \<and> (case run heap1 [GetAllocSize p] of
                    Inr (heap2, rs1) \<Rightarrow>
                      rs1 = [128]
                      \<and> (case DebugHeapFree heap2 p of
                           Inr heap3 \<Rightarrow>
                             m_BlockLookup heap3 2 = None
                             \<and> DebugHeapFree heap3 p = Inl (AssertFailed DoubleFree)
                             \<and> (case run heap3 [Allocate 1 1] of
                                  Inr (heap4, rs2) \<Rightarrow>
                                    rs2 = [90111]
                                    \<and> DebugHeapFree heap4 p = Inl (AssertFailed DoubleFree)
                                | Inl e \<Rightarrow> False)
                         | Inl e \<Rightarrow> False)
                  | Inl e \<Rightarrow> False)
           | Inl e \<Rightarrow> False)
      | Inl e \<Rightarrow> False)"
proof -
  have sp: "in_address_space 65536 32768"
    by (simp add: in_address_space_def bookkeeping_pages_def int_defs)
  have ev: "\<exists>heap rs heap1 heap2 heap3 heap4.
       run_from_init 65536 32768 [Allocate 1 1] = Inr (heap, rs)
       \<and> m_BaseAddress heap = 69632
       \<and> DebugHeapAllocate heap 128 4 = Inr (heap1, 81792)
       \<and> run heap1 [GetAllocSize 81792] = Inr (heap2, [128])
       \<and> DebugHeapFree heap2 81792 = Inr heap3
       \<and> run heap3 [Allocate 1 1] = Inr (heap4, [90111])"
    by (simp add: int_defs vm_defs op_defs loop_simps init_blocks_eq Let_def
             cong: let_weak_cong)
  then obtain heap rs heap1 heap2 heap3 heap4 where
    r0: "run_from_init 65536 32768 [Allocate 1 1] = Inr (heap, rs)"
    and base: "m_BaseAddress heap = 69632"
    and al: "DebugHeapAllocate heap 128 4 = Inr (heap1, 81792)"
    and r1: "run heap1 [GetAllocSize 81792] = Inr (heap2, [128])"
    and fr: "DebugHeapFree heap2 81792 = Inr heap3"
    and r2: "run heap3 [Allocate 1 1] = Inr (heap4, [90111])"
    by (elim exE conjE) (rule that, assumption+)
  have pg: "page_of heap 81792 = 2" by (simp add: page_of_def base kPageSize_def)
  have nr: "list_all (\<lambda>(c, r). \<not> reuses heap (page_of heap 81792) c r)
              (zip [Allocate 1 1] [90111])"
    by (simp add: page_of_def base kPageSize_def)
  have np: "(81792 :: nat) \<noteq> 0" by simp
  note th = double_free_detected [OF sp r0 al np r1 fr]
  note a = th [THEN conjunct2, THEN conjunct1]
  note b = th [THEN conjunct2, THEN conjunct2, THEN conjunct1]
  note c = th [THEN conjunct2, THEN conjunct2, THEN conjunct2]
  from c [rule_format, OF conjI [OF r2 nr]]
  have "DebugHeapFree heap4 81792 = Inl (AssertFailed DoubleFree)" .
  with a b have "m_BlockLookup heap3 (page_of heap 81792) = None
      \<and> DebugHeapFree heap3 81792 = Inl (AssertFailed DoubleFree)
      \<and> DebugHeapFree heap4 81792 = Inl (AssertFailed DoubleFree)"
    by (intro conjI)
  then have "m_BlockLookup heap3 2 = None \<and> DebugHeapFree heap3 81792 = Inl (AssertFailed DoubleFree)
     \<and> DebugHeapFree heap4 81792 = Inl (AssertFailed DoubleFree)"
    unfolding pg .
  then show ?thesis
    unfolding r0 sum.case prod.case al r1 fr r2 using sp pg by simp
qed

text \<open>
  C10. \<open>DebugHeapGetAllocSize\<close> has no null check on the lookup entry. For a pointer whose
  page index is in range and whose lookup entry is null, it reads \<open>m_PageCount\<close> through
  the null pointer, where \<open>DebugHeapFree\<close> on the same pointer trips the assertion
  "Double free".
\<close>

theorem getallocsize_null_lookup:
  assumes "m_ReentrancyGuard heap = 0"
      and "page_index_of heap ptr < m_HeapPageCount heap"
      and "m_BlockLookup heap (page_index_of heap ptr) = None"
  shows "DebugHeapGetAllocSize heap ptr = Inl NullDeref
       \<and> DebugHeapFree heap ptr = Inl (AssertFailed DoubleFree)"
  using assms
  by (simp add: DebugHeapGetAllocSize_def DebugHeapFree_def DEBUG_THREAD_GUARD_ENTER_def
      page_index_of_def u32_def Let_def)

text \<open>The witness is a pointer that has been freed.\<close>

theorem getallocsize_null_lookup_witness:
  "(case run_from_init 65536 32768 [Allocate 128 4, Free 73600] of
      Inr (heap, rs) \<Rightarrow>
        rs = [73600, 0]
        \<and> m_ReentrancyGuard heap = 0
        \<and> page_index_of heap 73600 < m_HeapPageCount heap
        \<and> m_BlockLookup heap (page_index_of heap 73600) = None
        \<and> DebugHeapGetAllocSize heap 73600 = Inl NullDeref
        \<and> DebugHeapFree heap 73600 = Inl (AssertFailed DoubleFree)
    | Inl e \<Rightarrow> False)"
proof -
  have "(case run_from_init 65536 32768 [Allocate 128 4, Free 73600] of
      Inr (heap, rs) \<Rightarrow>
        rs = [73600, 0]
        \<and> m_ReentrancyGuard heap = 0
        \<and> page_index_of heap 73600 < m_HeapPageCount heap
        \<and> m_BlockLookup heap (page_index_of heap 73600) = None
    | Inl e \<Rightarrow> False)"
    by (simp add: int_defs vm_defs op_defs loop_simps init_blocks_eq Let_def cong: let_weak_cong)
  then show ?thesis
    using getallocsize_null_lookup [of _ 73600]
    by (auto split: sum.splits prod.splits)
qed

end
